theory Spec2Isabelle
  imports Main "HOL-Library.Word"
begin

unbundle bit_operations_syntax

section \<open>Data model of the PSCI power-domain topology (psci\_setup.c)\<close>

text \<open>
  The two node arrays \<^verbatim>\<open>psci_non_cpu_pd_nodes[]\<close> and \<^verbatim>\<open>psci_cpu_pd_nodes[]\<close> are globals
  of the PSCI service. They are modelled as stores indexed by a natural number; the C code
  never checks an index against the capacity of either array when it writes, so the model
  has no capacity either (the only bound the source checks is the assertion on
  \<^verbatim>\<open>parent_node_index\<close>). All loop counters of the source are \<^verbatim>\<open>uint32_t\<close>; they are
  modelled as \<open>nat\<close>: every counter is bounded by 255 times the number of descriptor entries
  read, and that number is bounded by the assertion, so no counter wraps for any platform
  whose asserted bound is below \<open>2^24\<close>.
\<close>

datatype psci_pd_state = PSCI_STATE_ON | PSCI_STATE_OFF | PSCI_STATE_ON_PENDING | PSCI_STATE_SUSPEND

text \<open>The suspend power-state slot of the per-cpu data: either \<^verbatim>\<open>PSCI_INVALID_DATA\<close> or a value.\<close>

datatype suspend_slot = PSCI_INVALID_DATA | Suspend_power_state nat

text \<open>
  A node of \<^verbatim>\<open>psci_non_cpu_pd_nodes[]\<close>. \<open>parent_node\<close> is the \<^verbatim>\<open>int\<close> passed as
  \<^verbatim>\<open>parent_idx\<close> (\<open>-1\<close> for a root). \<open>lock_initialised\<close> records that \<^verbatim>\<open>psci_lock_init\<close> ran
  on the node. \<open>pd_state\<close> is the power state the node reports.
\<close>

record non_cpu_pd_node =
  level :: int
  parent_node :: int
  cpu_start_idx :: nat
  ncpus :: nat
  lock_initialised :: bool
  pd_state :: psci_pd_state

text \<open>
  A node of \<^verbatim>\<open>psci_cpu_pd_nodes[]\<close>; its field \<^verbatim>\<open>parent_node\<close> is called \<open>cpu_parent_node\<close>
  here because a record field name is global in HOL. \<open>mpidr\<close> is a 64-bit register value,
  \<open>-1\<close> being the all-ones invalid value.
\<close>

record cpu_pd_node =
  cpu_parent_node :: int
  mpidr :: "64 word"

text \<open>The \<^verbatim>\<open>psci_svc_cpu_data\<close> member of the per-cpu data.\<close>

record psci_cpu_data =
  psci_state :: psci_pd_state
  power_state :: suspend_slot

text \<open>
  A function pointer of the platform hook table: \<open>0\<close> is \<^verbatim>\<open>NULL\<close>, anything else is a
  hook that is present.
\<close>

type_synonym fn_ptr = nat

record plat_pm_ops =
  pwr_domain_on :: fn_ptr
  pwr_domain_on_finish :: fn_ptr
  pwr_domain_off :: fn_ptr
  pwr_domain_suspend :: fn_ptr
  pwr_domain_suspend_finish :: fn_ptr
  system_off :: fn_ptr
  system_reset :: fn_ptr

text \<open>
  The globals the file reads and writes. \<open>cm_ns_context i = Some k\<close> says that the
  non-secure context of cpu \<open>i\<close> is \<^verbatim>\<open>&psci_ns_context[k]\<close>. \<open>psci_plat_pm_ops = None\<close> is the
  \<^verbatim>\<open>NULL\<close> table pointer.
\<close>

record psci_globals =
  psci_non_cpu_pd_nodes :: "nat \<Rightarrow> non_cpu_pd_node"
  psci_cpu_pd_nodes :: "nat \<Rightarrow> cpu_pd_node"
  cpu_data :: "nat \<Rightarrow> psci_cpu_data"
  cm_ns_context :: "nat \<Rightarrow> nat option"
  psci_plat_pm_ops :: "plat_pm_ops option"
  psci_caps :: "32 word"

text \<open>
  Build-time constants of the platform and of \<^verbatim>\<open>psci.h\<close>, none of which is defined in
  psci\_setup.c: they are parameters of the model. The five \<open>CAP_\<close> fields stand for
  \<^verbatim>\<open>define_psci_cap(PSCI_CPU_OFF)\<close> and so on.
\<close>

record psci_config =
  PLATFORM_CORE_COUNT :: nat
  PLAT_MAX_PWR_LVL :: nat
  PSCI_NUM_PWR_DOMAINS :: nat
  PSCI_GENERIC_CAP :: "32 word"
  CAP_PSCI_CPU_OFF :: "32 word"
  CAP_PSCI_CPU_ON_AARCH64 :: "32 word"
  CAP_PSCI_CPU_SUSPEND_AARCH64 :: "32 word"
  CAP_PSCI_SYSTEM_OFF :: "32 word"
  CAP_PSCI_SYSTEM_RESET :: "32 word"
  MPIDR_AFFINITY_MASK :: "64 word"

text \<open>What the platform answers when queried during \<^verbatim>\<open>psci_setup\<close>.\<close>

record platform =
  platform_get_power_domain_tree_desc :: "nat \<Rightarrow> 8 word"
  platform_my_core_pos :: nat
  read_mpidr :: "64 word"
  platform_setup_pm :: "plat_pm_ops option"

text \<open>The ways the boot path can stop. The first three are the \<^verbatim>\<open>assert\<close>s of the source.\<close>

datatype psci_abort =
    Assert_parent_node_index
  | Assert_core_count
  | Assert_plat_pm_ops
  | Bad_node_index

definition PSCI_CPU_PWR_LVL :: int where
  "PSCI_CPU_PWR_LVL = 0"

section \<open>psci\_init\_pwr\_domain\_node\<close>

definition psci_init_pwr_domain_node :: "nat \<Rightarrow> int \<Rightarrow> int \<Rightarrow> psci_globals \<Rightarrow> psci_globals" where
  "psci_init_pwr_domain_node array_idx parent_idx lvl s =
     (if lvl > PSCI_CPU_PWR_LVL then
        s\<lparr>psci_non_cpu_pd_nodes := (psci_non_cpu_pd_nodes s)
             (array_idx := (psci_non_cpu_pd_nodes s array_idx)
                \<lparr>level := lvl, parent_node := parent_idx, lock_initialised := True\<rparr>)\<rparr>
      else
        s\<lparr>psci_cpu_pd_nodes := (psci_cpu_pd_nodes s)
             (array_idx := (psci_cpu_pd_nodes s array_idx)
                \<lparr>cpu_parent_node := parent_idx, mpidr := - 1\<rparr>),
          cpu_data := (cpu_data s)
             (array_idx := (cpu_data s array_idx)
                \<lparr>psci_state := PSCI_STATE_OFF, power_state := PSCI_INVALID_DATA\<rparr>),
          cm_ns_context := (cm_ns_context s)(array_idx \<mapsto> array_idx)\<rparr>)"

section \<open>populate\_power\_domain\_tree\<close>

text \<open>
  The right-hand side of \<^verbatim>\<open>assert(parent_node_index <= PSCI_NUM_PWR_DOMAINS - PLATFORM_CORE_COUNT)\<close>.
  The left-hand side is a \<^verbatim>\<open>uint32_t\<close>, so C converts the \<^verbatim>\<open>int\<close> difference to a 32-bit
  unsigned value before it compares: a negative difference becomes a large bound.
\<close>

definition assert_bound :: "psci_config \<Rightarrow> int" where
  "assert_bound cfg = (int (PSCI_NUM_PWR_DOMAINS cfg) - int (PLATFORM_CORE_COUNT cfg)) mod 2 ^ 32"

text \<open>The local variables of \<^verbatim>\<open>populate_power_domain_tree\<close> that live across iterations.\<close>

record tree_locals =
  j_var :: nat
  node_index :: nat
  parent_node_index :: nat
  num_nodes_at_next_lvl :: nat

text \<open>
  The innermost loop \<^verbatim>\<open>for (j = node_index; j < node_index + num_children; j++)\<close>.
\<close>

definition init_children :: "nat \<Rightarrow> nat \<Rightarrow> int \<Rightarrow> int \<Rightarrow> psci_globals \<Rightarrow> psci_globals" where
  "init_children first num_children parent_idx lvl s =
     fold (\<lambda>j. psci_init_pwr_domain_node j parent_idx lvl) [first ..< first + num_children] s"

text \<open>
  The loop \<^verbatim>\<open>for (i = 0; i < num_nodes_at_lvl; i++)\<close>; the argument after \<open>num_levels\<close> is the
  number of iterations still to run. The assertion compares \<^verbatim>\<open>parent_node_index\<close> with
  \<open>assert_bound\<close>. The \<^verbatim>\<open>int\<close> passed as \<^verbatim>\<open>parent_idx\<close> is \<^verbatim>\<open>parent_node_index - 1\<close>,
  which is \<open>-1\<close> for the entry 0 of the roots.
\<close>

fun populate_level ::
  "psci_config \<Rightarrow> (nat \<Rightarrow> 8 word) \<Rightarrow> int \<Rightarrow> nat \<Rightarrow> tree_locals \<times> psci_globals
     \<Rightarrow> psci_abort + tree_locals \<times> psci_globals" where
  "populate_level cfg plat_array num_levels 0 (v, s) = Inr (v, s)"
| "populate_level cfg plat_array num_levels (Suc k) (v, s) =
     (if \<not> int (parent_node_index v) \<le> assert_bound cfg
      then Inl Assert_parent_node_index
      else
        let num_children = unat (plat_array (parent_node_index v));
            s' = init_children (node_index v) num_children
                   (int (parent_node_index v) - 1) num_levels s;
            v' = v\<lparr>j_var := node_index v + num_children,
                   node_index := node_index v + num_children,
                   num_nodes_at_next_lvl := num_nodes_at_next_lvl v + num_children,
                   parent_node_index := parent_node_index v + 1\<rparr>
        in populate_level cfg plat_array num_levels k (v', s'))"

text \<open>The loop \<^verbatim>\<open>while (num_levels >= 0)\<close>.\<close>

function populate_levels ::
  "psci_config \<Rightarrow> (nat \<Rightarrow> 8 word) \<Rightarrow> int \<Rightarrow> nat \<Rightarrow> tree_locals \<times> psci_globals
     \<Rightarrow> psci_abort + tree_locals \<times> psci_globals" where
  "populate_levels cfg plat_array num_levels num_nodes_at_lvl (v, s) =
     (if num_levels \<ge> 0 then
        (case populate_level cfg plat_array num_levels num_nodes_at_lvl
                (v\<lparr>num_nodes_at_next_lvl := 0\<rparr>, s) of
           Inl e \<Rightarrow> Inl e
         | Inr (v', s') \<Rightarrow>
             populate_levels cfg plat_array (num_levels - 1) (num_nodes_at_next_lvl v')
               (if num_levels - 1 = 0 then v'\<lparr>node_index := 0\<rparr> else v', s'))
      else Inr (v, s))"
  by pat_completeness auto
termination
  by (relation "measure (\<lambda>(cfg, plat_array, num_levels, n, vs). nat (num_levels + 1))") auto

definition populate_power_domain_tree ::
  "psci_config \<Rightarrow> (nat \<Rightarrow> 8 word) \<Rightarrow> int \<Rightarrow> psci_globals \<Rightarrow> psci_abort + psci_globals" where
  "populate_power_domain_tree cfg plat_array num_levels s =
     (case populate_levels cfg plat_array num_levels 1
             (\<lparr>j_var = 0, node_index = 0, parent_node_index = 0, num_nodes_at_next_lvl = 0\<rparr>, s) of
        Inl e \<Rightarrow> Inl e
      | Inr (v, s') \<Rightarrow>
          if j_var v = PLATFORM_CORE_COUNT cfg then Inr s' else Inl Assert_core_count)"

section \<open>psci\_update\_pwrlvl\_limits\<close>

text \<open>
  Modelled from the spec: \<^verbatim>\<open>psci_get_parent_pwr_domain_nodes\<close>, which psci\_setup.c calls and
  does not define. The spec has it compute, for a cpu, "its ancestor index at every
  hierarchy level above the leaf (by walking \<open>parent_index\<close> repeatedly)": entry \<open>0\<close> of the
  result is the parent of the cpu, entry \<open>k + 1\<close> the parent of entry \<open>k\<close>. An index that is
  negative (the no-parent value \<open>-1\<close>) names no array element: the model stops with
  \<open>Bad_node_index\<close> where the walk would have to use it.
\<close>

fun walk_parents :: "(nat \<Rightarrow> non_cpu_pd_node) \<Rightarrow> int \<Rightarrow> nat \<Rightarrow> psci_abort + nat list" where
  "walk_parents nodes p 0 = Inr []"
| "walk_parents nodes p (Suc k) =
     (if p < 0 then Inl Bad_node_index
      else case walk_parents nodes (parent_node (nodes (nat p))) k of
             Inl e \<Rightarrow> Inl e
           | Inr ps \<Rightarrow> Inr (nat p # ps))"

definition psci_get_parent_pwr_domain_nodes :: "psci_globals \<Rightarrow> nat \<Rightarrow> nat \<Rightarrow> psci_abort + nat list" where
  "psci_get_parent_pwr_domain_nodes s cpu_idx end_lvl =
     walk_parents (psci_non_cpu_pd_nodes s) (cpu_parent_node (psci_cpu_pd_nodes s cpu_idx)) end_lvl"

text \<open>
  The body of the loop \<^verbatim>\<open>for (j = PLAT_MAX_PWR_LVL - 1; j >= 0; j--)\<close>, for one \<open>j\<close>.
\<close>

definition limits_step :: "nat \<Rightarrow> nat list \<Rightarrow> nat \<Rightarrow> nat list \<times> psci_globals \<Rightarrow> nat list \<times> psci_globals" where
  "limits_step cpu_idx temp_index j = (\<lambda>(nodes_idx, s).
     let changed = (temp_index ! j \<noteq> nodes_idx ! j);
         nodes_idx' = (if changed then nodes_idx[j := temp_index ! j] else nodes_idx);
         n = nodes_idx' ! j;
         nodes1 = (if changed
                   then (psci_non_cpu_pd_nodes s)(n := (psci_non_cpu_pd_nodes s n)\<lparr>cpu_start_idx := cpu_idx\<rparr>)
                   else psci_non_cpu_pd_nodes s);
         nodes2 = nodes1(n := (nodes1 n)\<lparr>ncpus := ncpus (nodes1 n) + 1\<rparr>)
     in (nodes_idx', s\<lparr>psci_non_cpu_pd_nodes := nodes2\<rparr>))"

text \<open>
  The loop \<^verbatim>\<open>for (cpu_idx = 0; cpu_idx < PLATFORM_CORE_COUNT; cpu_idx++)\<close>, run over the
  list of the cpu indices still to visit.
\<close>

fun limits_loop :: "psci_config \<Rightarrow> nat list \<Rightarrow> nat list \<times> psci_globals \<Rightarrow> psci_abort + nat list \<times> psci_globals" where
  "limits_loop cfg [] (nodes_idx, s) = Inr (nodes_idx, s)"
| "limits_loop cfg (cpu_idx # rest) (nodes_idx, s) =
     (case psci_get_parent_pwr_domain_nodes s cpu_idx (PLAT_MAX_PWR_LVL cfg) of
        Inl e \<Rightarrow> Inl e
      | Inr temp_index \<Rightarrow>
          limits_loop cfg rest
            (fold (limits_step cpu_idx temp_index) (rev [0 ..< PLAT_MAX_PWR_LVL cfg]) (nodes_idx, s)))"

definition psci_update_pwrlvl_limits :: "psci_config \<Rightarrow> psci_globals \<Rightarrow> psci_abort + psci_globals" where
  "psci_update_pwrlvl_limits cfg s =
     (case limits_loop cfg [0 ..< PLATFORM_CORE_COUNT cfg] (replicate (PLAT_MAX_PWR_LVL cfg) 0, s) of
        Inl e \<Rightarrow> Inl e
      | Inr (nodes_idx, s') \<Rightarrow> Inr s')"

section \<open>psci\_setup\<close>

text \<open>
  Modelled from the spec: \<^verbatim>\<open>psci_do_state_coordination\<close>, which psci\_setup.c calls and does
  not define. The spec has the call "walk the ancestor chain of the primary CPU from the
  top configured level down to the leaf and mark every node on that path ON": the cpu's own
  state and the state of each ancestor up to \<open>end_pwrlvl\<close> are set to the state given.
\<close>

definition psci_do_state_coordination ::
  "nat \<Rightarrow> nat \<Rightarrow> psci_pd_state \<Rightarrow> psci_globals \<Rightarrow> psci_abort + psci_globals" where
  "psci_do_state_coordination end_pwrlvl cpu_idx st s =
     (case psci_get_parent_pwr_domain_nodes s cpu_idx end_pwrlvl of
        Inl e \<Rightarrow> Inl e
      | Inr ps \<Rightarrow>
          Inr (s\<lparr>cpu_data := (cpu_data s)(cpu_idx := (cpu_data s cpu_idx)\<lparr>psci_state := st\<rparr>),
                 psci_non_cpu_pd_nodes :=
                   fold (\<lambda>n nodes. nodes(n := (nodes n)\<lparr>pd_state := st\<rparr>)) ps (psci_non_cpu_pd_nodes s)\<rparr>))"

text \<open>The capability mask computed at the end of \<^verbatim>\<open>psci_setup\<close>, one \<^verbatim>\<open>if\<close> after the other.\<close>

definition psci_setup_caps :: "psci_config \<Rightarrow> plat_pm_ops \<Rightarrow> 32 word" where
  "psci_setup_caps cfg ops =
     (let c0 = PSCI_GENERIC_CAP cfg;
          c1 = (if pwr_domain_off ops \<noteq> 0 then c0 OR CAP_PSCI_CPU_OFF cfg else c0);
          c2 = (if pwr_domain_on ops \<noteq> 0 \<and> pwr_domain_on_finish ops \<noteq> 0
                then c1 OR CAP_PSCI_CPU_ON_AARCH64 cfg else c1);
          c3 = (if pwr_domain_suspend ops \<noteq> 0 \<and> pwr_domain_suspend_finish ops \<noteq> 0
                then c2 OR CAP_PSCI_CPU_SUSPEND_AARCH64 cfg else c2);
          c4 = (if system_off ops \<noteq> 0 then c3 OR CAP_PSCI_SYSTEM_OFF cfg else c3);
          c5 = (if system_reset ops \<noteq> 0 then c4 OR CAP_PSCI_SYSTEM_RESET cfg else c4)
      in c5)"

text \<open>
  \<^verbatim>\<open>psci_setup\<close>: the result is the \<^verbatim>\<open>int32_t\<close> returned together with the globals, or the
  abort that stopped it. The cache flushes have no effect on the model.
\<close>

definition psci_setup :: "psci_config \<Rightarrow> platform \<Rightarrow> psci_globals \<Rightarrow> psci_abort + int \<times> psci_globals" where
  "psci_setup cfg plat s0 =
     (let s = s0\<lparr>psci_plat_pm_ops := None\<rparr>;
          topology_tree = platform_get_power_domain_tree_desc plat
      in case populate_power_domain_tree cfg topology_tree (int (PLAT_MAX_PWR_LVL cfg)) s of
           Inl e \<Rightarrow> Inl e
         | Inr s1 \<Rightarrow>
        (case psci_update_pwrlvl_limits cfg s1 of
           Inl e \<Rightarrow> Inl e
         | Inr s2 \<Rightarrow>
        (let me = platform_my_core_pos plat;
             s3 = s2\<lparr>psci_cpu_pd_nodes := (psci_cpu_pd_nodes s2)
                      (me := (psci_cpu_pd_nodes s2 me)
                         \<lparr>mpidr := read_mpidr plat AND MPIDR_AFFINITY_MASK cfg\<rparr>)\<rparr>
         in case psci_do_state_coordination (PLAT_MAX_PWR_LVL cfg) me PSCI_STATE_ON s3 of
              Inl e \<Rightarrow> Inl e
            | Inr s4 \<Rightarrow>
           (let s5 = s4\<lparr>psci_plat_pm_ops := platform_setup_pm plat\<rparr>
            in case psci_plat_pm_ops s5 of
                 None \<Rightarrow> Inl Assert_plat_pm_ops
               | Some ops \<Rightarrow> Inr (0, s5\<lparr>psci_caps := psci_setup_caps cfg ops\<rparr>)))))"

text \<open>
  The globals before \<^verbatim>\<open>psci_setup\<close> runs: objects of static storage duration, which C
  initialises to zero. A node above the cpus then has no reference counted (the comment in
  \<^verbatim>\<open>psci_init_pwr_domain_node\<close>: "higher power level reference counts have already been
  memset to 0"), so nothing is marked and it reports \<open>PSCI_STATE_OFF\<close>. The numbering of the
  cpu states is not part of this file; the zero state of a cpu is taken to be
  \<open>PSCI_STATE_ON\<close>, and no property below depends on that choice, since the builder
  overwrites the state of every cpu it allocates.
\<close>

definition zero_node :: non_cpu_pd_node where
  "zero_node = \<lparr>level = 0, parent_node = 0, cpu_start_idx = 0, ncpus = 0,
                lock_initialised = False, pd_state = PSCI_STATE_OFF\<rparr>"

definition bss_globals :: psci_globals where
  "bss_globals = \<lparr>psci_non_cpu_pd_nodes = (\<lambda>_. zero_node),
                  psci_cpu_pd_nodes = (\<lambda>_. \<lparr>cpu_parent_node = 0, mpidr = 0\<rparr>),
                  cpu_data = (\<lambda>_. \<lparr>psci_state = PSCI_STATE_ON, power_state = Suspend_power_state 0\<rparr>),
                  cm_ns_context = (\<lambda>_. None),
                  psci_plat_pm_ops = None,
                  psci_caps = 0\<rparr>"

section \<open>The decoded description, the built tree and the computed ranges\<close>

text \<open>
  What the description decodes to. \<open>children_sum d p k\<close> is the sum of the \<open>k\<close> entries of the
  description that start at index \<open>p\<close>.
\<close>

fun children_sum :: "(nat \<Rightarrow> 8 word) \<Rightarrow> nat \<Rightarrow> nat \<Rightarrow> nat" where
  "children_sum d p 0 = 0"
| "children_sum d p (Suc k) = unat (d p) + children_sum d (Suc p) k"

text \<open>
  \<open>lvl_entries d i\<close>: the index of the first entry and the number of entries that the
  description has for the \<open>i\<close>-th level from the top (a single entry for the top level: the
  number of roots).
\<close>

fun lvl_entries :: "(nat \<Rightarrow> 8 word) \<Rightarrow> nat \<Rightarrow> nat \<times> nat" where
  "lvl_entries d 0 = (0, 1)"
| "lvl_entries d (Suc i) =
     (case lvl_entries d i of (p, n) \<Rightarrow> (p + n, children_sum d p n))"

definition leaf_count :: "(nat \<Rightarrow> 8 word) \<Rightarrow> nat \<Rightarrow> nat" where
  "leaf_count d max_lvl = snd (lvl_entries d (Suc max_lvl))"

definition non_cpu_count :: "(nat \<Rightarrow> 8 word) \<Rightarrow> nat \<Rightarrow> nat" where
  "non_cpu_count d max_lvl = fst (lvl_entries d (Suc max_lvl)) - 1"

text \<open>
  A valid description: the platform has a cpu, the description decodes to exactly
  \<open>PLATFORM_CORE_COUNT\<close> cpu leaves, and the
  entries it uses lie within the bound that the builder asserts on \<^verbatim>\<open>parent_node_index\<close>.
\<close>

definition valid_desc :: "psci_config \<Rightarrow> (nat \<Rightarrow> 8 word) \<Rightarrow> bool" where
  "valid_desc cfg d \<longleftrightarrow>
     0 < PLATFORM_CORE_COUNT cfg \<and>
     leaf_count d (PLAT_MAX_PWR_LVL cfg) = PLATFORM_CORE_COUNT cfg \<and>
     int (non_cpu_count d (PLAT_MAX_PWR_LVL cfg))
       \<le> assert_bound cfg"

text \<open>The effect of the loop over the entries of one level on the globals.\<close>

fun alloc_level :: "(nat \<Rightarrow> 8 word) \<Rightarrow> int \<Rightarrow> nat \<Rightarrow> nat \<Rightarrow> nat \<Rightarrow> psci_globals \<Rightarrow> psci_globals" where
  "alloc_level d l 0 p ni s = s"
| "alloc_level d l (Suc k) p ni s =
     alloc_level d l k (Suc p) (ni + unat (d p)) (init_children ni (unat (d p)) (int p - 1) l s)"

text \<open>
  The invariant of the builder on \<^verbatim>\<open>psci_non_cpu_pd_nodes\<close>, for a tree of \<open>L\<close> levels, while
  the slots below \<open>t\<close> are allocated, the nodes of the lowest level allocated so far (\<open>l\<close>)
  start at slot \<open>b\<close>, and \<open>q\<close> is the entry of the description that is read next: levels,
  parent links that lead one level up, \<open>-1\<close> as the parent of the top level, parents that
  grow with the slot index.
\<close>

definition nodes_inv :: "int \<Rightarrow> int \<Rightarrow> nat \<Rightarrow> nat \<Rightarrow> nat \<Rightarrow> (nat \<Rightarrow> non_cpu_pd_node) \<Rightarrow> bool" where
  "nodes_inv L l b t q nd \<longleftrightarrow>
     b \<le> t \<and>
     (\<forall>m<t. l \<le> level (nd m) \<and> level (nd m) \<le> L \<and> (level (nd m) = l \<longleftrightarrow> b \<le> m)) \<and>
     (\<forall>m<t. level (nd m) < L \<longrightarrow>
        0 \<le> parent_node (nd m) \<and> parent_node (nd m) < int b \<and>
        level (nd (nat (parent_node (nd m)))) = level (nd m) + 1) \<and>
     (\<forall>m<t. level (nd m) = L \<longrightarrow> parent_node (nd m) = - 1) \<and>
     (\<forall>m m'. m \<le> m' \<and> m' < t \<longrightarrow> parent_node (nd m) \<le> parent_node (nd m')) \<and>
     (\<forall>m<t. parent_node (nd m) < int q)"

text \<open>
  The \<open>k\<close> entries from \<open>q\<close> on are entries of nodes of level \<open>l + 1\<close> (or the single entry of
  the roots).
\<close>

definition parent_ok :: "int \<Rightarrow> int \<Rightarrow> nat \<Rightarrow> nat \<Rightarrow> nat \<Rightarrow> (nat \<Rightarrow> non_cpu_pd_node) \<Rightarrow> bool" where
  "parent_ok L l b q k nd \<longleftrightarrow>
     k = 0 \<or> (l = L \<and> q = 0 \<and> k = 1) \<or>
     (l < L \<and> 1 \<le> q \<and> q + k - 1 \<le> b \<and> (\<forall>m. q - 1 \<le> m \<and> m < b \<longrightarrow> level (nd m) = l + 1))"

text \<open>
  The globals after the builder has processed the first \<open>i\<close> levels from the top, for a tree of
  \<open>max_lvl\<close> levels above the cpus.
\<close>

fun tree_upto :: "(nat \<Rightarrow> 8 word) \<Rightarrow> nat \<Rightarrow> nat \<Rightarrow> psci_globals \<Rightarrow> psci_globals" where
  "tree_upto d max_lvl 0 s = s"
| "tree_upto d max_lvl (Suc i) s =
     (case lvl_entries d i of (p, n) \<Rightarrow>
        alloc_level d (int max_lvl - int i) n p (if max_lvl = i then 0 else p + n - 1)
          (tree_upto d max_lvl i s))"

text \<open>
  The built tree: \<open>M\<close> nodes above the cpus and \<open>N\<close> cpus, \<open>L\<close> levels; every parent link leads
  one level up, and parents grow with the index, of nodes and of cpus alike.
\<close>

definition tree_wf :: "nat \<Rightarrow> nat \<Rightarrow> nat \<Rightarrow> psci_globals \<Rightarrow> bool" where
  "tree_wf L M N s \<longleftrightarrow>
     (\<forall>m<M. 1 \<le> level (psci_non_cpu_pd_nodes s m) \<and> level (psci_non_cpu_pd_nodes s m) \<le> int L) \<and>
     (\<forall>m<M. level (psci_non_cpu_pd_nodes s m) < int L \<longrightarrow>
        0 \<le> parent_node (psci_non_cpu_pd_nodes s m) \<and>
        parent_node (psci_non_cpu_pd_nodes s m) < int M \<and>
        level (psci_non_cpu_pd_nodes s (nat (parent_node (psci_non_cpu_pd_nodes s m))))
          = level (psci_non_cpu_pd_nodes s m) + 1) \<and>
     (\<forall>m<M. level (psci_non_cpu_pd_nodes s m) = int L \<longrightarrow> parent_node (psci_non_cpu_pd_nodes s m) = - 1) \<and>
     (\<forall>m m'. m \<le> m' \<and> m' < M \<longrightarrow>
        parent_node (psci_non_cpu_pd_nodes s m) \<le> parent_node (psci_non_cpu_pd_nodes s m')) \<and>
     (\<forall>c<N. if 0 < L
        then 0 \<le> cpu_parent_node (psci_cpu_pd_nodes s c) \<and>
             cpu_parent_node (psci_cpu_pd_nodes s c) < int M \<and>
             level (psci_non_cpu_pd_nodes s (nat (cpu_parent_node (psci_cpu_pd_nodes s c)))) = 1
        else cpu_parent_node (psci_cpu_pd_nodes s c) = - 1) \<and>
     (\<forall>c c'. c \<le> c' \<and> c' < N \<longrightarrow>
        cpu_parent_node (psci_cpu_pd_nodes s c) \<le> cpu_parent_node (psci_cpu_pd_nodes s c'))"

text \<open>
  Node \<open>m\<close> after the loop over the levels below \<open>n\<close> has run for cpu \<open>c\<close>, whose ancestors
  are \<open>temp\<close>, on the record \<open>ni\<close> of the previous cpu.
\<close>

definition limits_after :: "nat \<Rightarrow> nat list \<Rightarrow> nat list \<Rightarrow> nat \<Rightarrow> (nat \<Rightarrow> non_cpu_pd_node) \<Rightarrow> nat \<Rightarrow> non_cpu_pd_node" where
  "limits_after c temp ni n nd m =
     (nd m)\<lparr>cpu_start_idx := (if \<exists>k<n. temp ! k = m \<and> temp ! k \<noteq> ni ! k then c else cpu_start_idx (nd m)),
            ncpus := ncpus (nd m) + (if \<exists>k<n. temp ! k = m then 1 else 0)\<rparr>"

text \<open>
  \<open>nth_parent nd p k\<close> follows the parent links \<open>k\<close> times from the index \<open>p\<close>;
  \<open>ancestor s c k\<close> is the ancestor of cpu \<open>c\<close> at level \<open>k + 1\<close>.
\<close>

fun nth_parent :: "(nat \<Rightarrow> non_cpu_pd_node) \<Rightarrow> int \<Rightarrow> nat \<Rightarrow> int" where
  "nth_parent nd p 0 = p"
| "nth_parent nd p (Suc k) = nth_parent nd (parent_node (nd (nat p))) k"

definition ancestor :: "psci_globals \<Rightarrow> nat \<Rightarrow> nat \<Rightarrow> int" where
  "ancestor s c k = nth_parent (psci_non_cpu_pd_nodes s) (cpu_parent_node (psci_cpu_pd_nodes s c)) k"

text \<open>The ancestor chain of cpu \<open>c\<close>, up to level \<open>max_lvl\<close>, passes through node \<open>m\<close>.\<close>

definition covers :: "psci_globals \<Rightarrow> nat \<Rightarrow> nat \<Rightarrow> nat \<Rightarrow> bool" where
  "covers s max_lvl c m \<longleftrightarrow> (\<exists>k\<in>{0..<max_lvl}. ancestor s c k = int m)"

text \<open>The cpus below index \<open>i\<close> whose ancestor chain passes through node \<open>m\<close>.\<close>

definition covered :: "psci_globals \<Rightarrow> nat \<Rightarrow> nat \<Rightarrow> nat \<Rightarrow> nat set" where
  "covered s max_lvl i m = {c \<in> {0..<i}. covers s max_lvl c m}"

text \<open>
  The node \<open>m\<close> after the range aggregator has visited the cpus below \<open>i\<close>, starting from
  the globals \<open>s\<close>.
\<close>

definition limits_spec :: "psci_globals \<Rightarrow> nat \<Rightarrow> nat \<Rightarrow> nat \<Rightarrow> non_cpu_pd_node" where
  "limits_spec s max_lvl i m =
     (psci_non_cpu_pd_nodes s m)
       \<lparr>cpu_start_idx :=
          (if covered s max_lvl i m = {} \<or> (m = 0 \<and> 0 \<in> covered s max_lvl i 0)
           then cpu_start_idx (psci_non_cpu_pd_nodes s m)
           else Min (covered s max_lvl i m)),
        ncpus := ncpus (psci_non_cpu_pd_nodes s m) + card (covered s max_lvl i m)\<rparr>"

text \<open>The array \<^verbatim>\<open>nodes_idx\<close> after the aggregator has visited the cpus below \<open>i\<close>.\<close>

definition nodes_idx_after :: "psci_globals \<Rightarrow> nat \<Rightarrow> nat \<Rightarrow> nat list" where
  "nodes_idx_after s L i =
     (if i = 0 then replicate L 0 else map (\<lambda>k. nat (ancestor s (i - 1) k)) [0 ..< L])"

text \<open>The cpu indices in the range that node \<open>m\<close> records.\<close>

definition cpu_range :: "psci_globals \<Rightarrow> nat \<Rightarrow> nat set" where
  "cpu_range s m =
     {cpu_start_idx (psci_non_cpu_pd_nodes s m) ..<
      cpu_start_idx (psci_non_cpu_pd_nodes s m) + ncpus (psci_non_cpu_pd_nodes s m)}"

text \<open>The range fields as static storage has them before the aggregator runs: all zero.\<close>

definition limits_zeroed :: "psci_globals \<Rightarrow> bool" where
  "limits_zeroed s \<longleftrightarrow>
     (\<forall>m. cpu_start_idx (psci_non_cpu_pd_nodes s m) = 0 \<and> ncpus (psci_non_cpu_pd_nodes s m) = 0)"

text \<open>
  The platform of the example in the header comment of \<^verbatim>\<open>psci_setup\<close>: two clusters of two
  cpus under one system node, description \<open>[1, 2, 2, 2]\<close>, three levels. The capability
  masks are given bits that differ from one another.
\<close>

definition example_config :: psci_config where
  "example_config = \<lparr>PLATFORM_CORE_COUNT = 4, PLAT_MAX_PWR_LVL = 2, PSCI_NUM_PWR_DOMAINS = 7,
     PSCI_GENERIC_CAP = 0x411, CAP_PSCI_CPU_OFF = 0x4, CAP_PSCI_CPU_ON_AARCH64 = 0x8,
     CAP_PSCI_CPU_SUSPEND_AARCH64 = 0x2, CAP_PSCI_SYSTEM_OFF = 0x100, CAP_PSCI_SYSTEM_RESET = 0x200,
     MPIDR_AFFINITY_MASK = 0xff00ffffff\<rparr>"

definition example_desc :: "nat \<Rightarrow> 8 word" where
  "example_desc i = (if i = 0 then 1 else if i < 4 then 2 else 0)"

definition example_ops :: plat_pm_ops where
  "example_ops = \<lparr>pwr_domain_on = 1, pwr_domain_on_finish = 1, pwr_domain_off = 1,
     pwr_domain_suspend = 1, pwr_domain_suspend_finish = 0, system_off = 0, system_reset = 1\<rparr>"

definition example_platform :: "nat \<Rightarrow> platform" where
  "example_platform me = \<lparr>platform_get_power_domain_tree_desc = example_desc,
     platform_my_core_pos = me, read_mpidr = 0x80000000 + of_nat me,
     platform_setup_pm = Some example_ops\<rparr>"

text \<open>Two distinct allocated nodes with the same parent.\<close>

definition siblings :: "psci_globals \<Rightarrow> nat \<Rightarrow> nat \<Rightarrow> nat \<Rightarrow> bool" where
  "siblings s M m m' \<longleftrightarrow>
     m < M \<and> m' < M \<and> m \<noteq> m' \<and>
     parent_node (psci_non_cpu_pd_nodes s m) = parent_node (psci_non_cpu_pd_nodes s m')"

text \<open>
  The globals of \<^verbatim>\<open>psci_setup\<close> just before it asks the platform for its hook table, for a
  valid description: the built tree with its ranges, the \<open>mpidr\<close> of the booting cpu, and the
  booting cpu and its ancestors marked with the state \<open>st\<close>.
\<close>

definition built_tree :: "psci_config \<Rightarrow> platform \<Rightarrow> psci_globals \<Rightarrow> psci_globals" where
  "built_tree cfg plat s0 =
     tree_upto (platform_get_power_domain_tree_desc plat) (PLAT_MAX_PWR_LVL cfg)
       (Suc (PLAT_MAX_PWR_LVL cfg)) (s0\<lparr>psci_plat_pm_ops := None\<rparr>)"

definition booted_tree :: "psci_config \<Rightarrow> platform \<Rightarrow> psci_globals \<Rightarrow> psci_globals" where
  "booted_tree cfg plat s0 =
     (let s1 = built_tree cfg plat s0;
          me = platform_my_core_pos plat
      in s1\<lparr>psci_non_cpu_pd_nodes :=
               fold (\<lambda>n nodes. nodes(n := (nodes n)\<lparr>pd_state := PSCI_STATE_ON\<rparr>))
                 (map (\<lambda>k. nat (ancestor s1 me k)) [0 ..< PLAT_MAX_PWR_LVL cfg])
                 (limits_spec s1 (PLAT_MAX_PWR_LVL cfg) (PLATFORM_CORE_COUNT cfg)),
             psci_cpu_pd_nodes := (psci_cpu_pd_nodes s1)
               (me := (psci_cpu_pd_nodes s1 me)\<lparr>mpidr := read_mpidr plat AND MPIDR_AFFINITY_MASK cfg\<rparr>),
             cpu_data := (cpu_data s1)(me := (cpu_data s1 me)\<lparr>psci_state := PSCI_STATE_ON\<rparr>)\<rparr>)"

text \<open>Capability \<open>c\<close> is contained in the mask \<open>caps\<close>.\<close>

definition cap_set :: "32 word \<Rightarrow> 32 word \<Rightarrow> bool" where
  "cap_set caps c \<longleftrightarrow> caps AND c = c"

text \<open>No two masks of the list share a bit.\<close>

fun pairwise_disjoint :: "32 word list \<Rightarrow> bool" where
  "pairwise_disjoint [] = True"
| "pairwise_disjoint (c # cs) = (list_all (\<lambda>c'. c AND c' = 0) cs \<and> pairwise_disjoint cs)"

text \<open>
  The capability constants of \<^verbatim>\<open>psci.h\<close> name different bits: none of the five optional
  capabilities is empty, and no two of the six masks share a bit.
\<close>

definition caps_distinct :: "psci_config \<Rightarrow> bool" where
  "caps_distinct cfg \<longleftrightarrow>
     list_all (\<lambda>c. c \<noteq> 0)
       [CAP_PSCI_CPU_OFF cfg, CAP_PSCI_CPU_ON_AARCH64 cfg, CAP_PSCI_CPU_SUSPEND_AARCH64 cfg,
        CAP_PSCI_SYSTEM_OFF cfg, CAP_PSCI_SYSTEM_RESET cfg] \<and>
     pairwise_disjoint
       [PSCI_GENERIC_CAP cfg, CAP_PSCI_CPU_OFF cfg, CAP_PSCI_CPU_ON_AARCH64 cfg,
        CAP_PSCI_CPU_SUSPEND_AARCH64 cfg, CAP_PSCI_SYSTEM_OFF cfg, CAP_PSCI_SYSTEM_RESET cfg]"

text \<open>
  A description with two roots that have no children, for a platform of two cpus and three
  levels: it decodes to no cpu leaf at all.
\<close>

definition childless_config :: psci_config where
  "childless_config = example_config\<lparr>PLATFORM_CORE_COUNT := 2, PSCI_NUM_PWR_DOMAINS := 5\<rparr>"

definition childless_desc :: "nat \<Rightarrow> 8 word" where
  "childless_desc i = (if i = 0 then 2 else 0)"


section \<open>Lemmas on the builder, the aggregator and the example\<close>

lemma assert_bound_eq:
  "PLATFORM_CORE_COUNT cfg \<le> PSCI_NUM_PWR_DOMAINS cfg \<Longrightarrow> PSCI_NUM_PWR_DOMAINS cfg < 2 ^ 32 \<Longrightarrow>
     assert_bound cfg = int (PSCI_NUM_PWR_DOMAINS cfg) - int (PLATFORM_CORE_COUNT cfg)"
  unfolding assert_bound_def by (rule mod_pos_pos_trivial) (simp_all add: of_nat_diff [symmetric] del: of_nat_diff)

lemma init_children_Suc:
  "init_children first (Suc n) p l s =
     psci_init_pwr_domain_node (first + n) p l (init_children first n p l s)"
  by (simp add: init_children_def)

lemma init_children_0: "init_children first 0 p l s = s"
  by (simp add: init_children_def)

lemma init_children_nodes:
  "psci_non_cpu_pd_nodes (init_children first n p l s) m =
     (if 0 < l \<and> first \<le> m \<and> m < first + n
      then (psci_non_cpu_pd_nodes s m)\<lparr>level := l, parent_node := p, lock_initialised := True\<rparr>
      else psci_non_cpu_pd_nodes s m)"
  by (induction n) (auto simp: init_children_Suc init_children_0 psci_init_pwr_domain_node_def PSCI_CPU_PWR_LVL_def)

lemma init_children_cpus:
  "psci_cpu_pd_nodes (init_children first n p l s) c =
     (if \<not> 0 < l \<and> first \<le> c \<and> c < first + n
      then (psci_cpu_pd_nodes s c)\<lparr>cpu_parent_node := p, mpidr := - 1\<rparr>
      else psci_cpu_pd_nodes s c)"
  by (induction n) (auto simp: init_children_Suc init_children_0 psci_init_pwr_domain_node_def PSCI_CPU_PWR_LVL_def)

lemma init_children_cpu_data:
  "cpu_data (init_children first n p l s) c =
     (if \<not> 0 < l \<and> first \<le> c \<and> c < first + n
      then (cpu_data s c)\<lparr>psci_state := PSCI_STATE_OFF, power_state := PSCI_INVALID_DATA\<rparr>
      else cpu_data s c)"
  by (induction n) (auto simp: init_children_Suc init_children_0 psci_init_pwr_domain_node_def PSCI_CPU_PWR_LVL_def)

lemma init_children_ctx:
  "cm_ns_context (init_children first n p l s) c =
     (if \<not> 0 < l \<and> first \<le> c \<and> c < first + n then Some c else cm_ns_context s c)"
  by (induction n) (auto simp: init_children_Suc init_children_0 psci_init_pwr_domain_node_def PSCI_CPU_PWR_LVL_def)

lemma init_children_rest:
  "psci_plat_pm_ops (init_children first n p l s) = psci_plat_pm_ops s"
  "psci_caps (init_children first n p l s) = psci_caps s"
  by (induction n) (auto simp: init_children_Suc init_children_0 psci_init_pwr_domain_node_def PSCI_CPU_PWR_LVL_def)

lemma populate_level_ok:
  assumes "k = 0 \<or> int (parent_node_index v + k) - 1 \<le> assert_bound cfg"
  shows "populate_level cfg d l k (v, s) =
           Inr (if k = 0 then v
                else v\<lparr>j_var := node_index v + children_sum d (parent_node_index v) k,
                       node_index := node_index v + children_sum d (parent_node_index v) k,
                       num_nodes_at_next_lvl := num_nodes_at_next_lvl v + children_sum d (parent_node_index v) k,
                       parent_node_index := parent_node_index v + k\<rparr>,
                alloc_level d l k (parent_node_index v) (node_index v) s)"
  using assms
proof (induction k arbitrary: v s)
  case 0
  then show ?case by simp
next
  case (Suc k)
  let ?c = "unat (d (parent_node_index v))"
  let ?v = "v\<lparr>j_var := node_index v + ?c, node_index := node_index v + ?c,
               num_nodes_at_next_lvl := num_nodes_at_next_lvl v + ?c,
               parent_node_index := parent_node_index v + 1\<rparr>"
  have a: "int (parent_node_index v) \<le> assert_bound cfg"
    using Suc.prems by simp
  have b: "k = 0 \<or> int (parent_node_index ?v + k) - 1 \<le> assert_bound cfg"
    using Suc.prems by simp
  show ?case
    using Suc.IH [OF b, of "init_children (node_index v) ?c (int (parent_node_index v) - 1) l s"] a
    by (cases k) (simp_all add: Let_def)
qed

lemma populate_level_abort:
  assumes "k \<noteq> 0" "\<not> int (parent_node_index v + k) - 1 \<le> assert_bound cfg"
  shows "populate_level cfg d l k (v, s) = Inl Assert_parent_node_index"
  using assms
proof (induction k arbitrary: v s)
  case 0
  then show ?case by simp
next
  case (Suc k)
  show ?case
  proof (cases "int (parent_node_index v) \<le> assert_bound cfg")
    case False
    then show ?thesis by simp
  next
    case True
    with Suc.prems have k: "k \<noteq> 0" by auto
    show ?thesis using True Suc.IH [OF k] Suc.prems(2) by (simp add: Let_def)
  qed
qed

lemma nodes_inv_step:
  assumes inv: "nodes_inv L l b ni q (psci_non_cpu_pd_nodes s)"
    and l: "1 \<le> l" "l \<le> L"
    and ok: "parent_ok L l b q (Suc k) (psci_non_cpu_pd_nodes s)"
  shows "nodes_inv L l b (ni + c) (Suc q) (psci_non_cpu_pd_nodes (init_children ni c (int q - 1) l s))"
proof -
  let ?nd = "psci_non_cpu_pd_nodes s"
  let ?nd' = "psci_non_cpu_pd_nodes (init_children ni c (int q - 1) l s)"
  have bni: "b \<le> ni" using inv by (simp add: nodes_inv_def)
  have old: "\<And>m. m < ni \<Longrightarrow> ?nd' m = ?nd m"
    by (simp add: init_children_nodes)
  have new: "\<And>m. ni \<le> m \<Longrightarrow> m < ni + c \<Longrightarrow> level (?nd' m) = l \<and> parent_node (?nd' m) = int q - 1"
    using l by (simp add: init_children_nodes)
  have par: "(l = L \<and> q = 0) \<or> (l < L \<and> 1 \<le> q \<and> q - 1 < b \<and> level (?nd (q - 1)) = l + 1)"
    using ok by (auto simp: parent_ok_def)
  have c1: "b \<le> ni + c" using bni by simp
  have c2: "\<forall>m<ni + c. l \<le> level (?nd' m) \<and> level (?nd' m) \<le> L \<and> (level (?nd' m) = l \<longleftrightarrow> b \<le> m)"
  proof (intro allI impI)
    fix m assume m: "m < ni + c"
    show "l \<le> level (?nd' m) \<and> level (?nd' m) \<le> L \<and> (level (?nd' m) = l \<longleftrightarrow> b \<le> m)"
    proof (cases "m < ni")
      case True
      then show ?thesis using inv old [OF True] by (simp add: nodes_inv_def)
    next
      case False
      then show ?thesis using new [of m] m l bni by auto
    qed
  qed
  have c3: "\<forall>m<ni + c. level (?nd' m) < L \<longrightarrow>
        0 \<le> parent_node (?nd' m) \<and> parent_node (?nd' m) < int b \<and>
        level (?nd' (nat (parent_node (?nd' m)))) = level (?nd' m) + 1"
  proof (intro allI impI)
    fix m assume m: "m < ni + c" and lv: "level (?nd' m) < L"
    show "0 \<le> parent_node (?nd' m) \<and> parent_node (?nd' m) < int b \<and>
        level (?nd' (nat (parent_node (?nd' m)))) = level (?nd' m) + 1"
    proof (cases "m < ni")
      case True
      have p: "0 \<le> parent_node (?nd m) \<and> parent_node (?nd m) < int b \<and>
        level (?nd (nat (parent_node (?nd m)))) = level (?nd m) + 1"
        using inv True lv old [OF True] by (simp add: nodes_inv_def)
      then have "nat (parent_node (?nd m)) < ni" using bni by linarith
      then show ?thesis using p old [OF True] old [of "nat (parent_node (?nd m))"] by simp
    next
      case False
      then have n: "level (?nd' m) = l" "parent_node (?nd' m) = int q - 1"
        using new [of m] m by auto
      with lv par have q: "l < L" "1 \<le> q" "q - 1 < b" "level (?nd (q - 1)) = l + 1" by auto
      have "nat (int q - 1) = q - 1" by simp
      moreover have "q - 1 < ni" using q bni by simp
      ultimately show ?thesis using n q old [of "q - 1"] by auto
    qed
  qed
  have c4: "\<forall>m<ni + c. level (?nd' m) = L \<longrightarrow> parent_node (?nd' m) = - 1"
  proof (intro allI impI)
    fix m assume m: "m < ni + c" and lv: "level (?nd' m) = L"
    show "parent_node (?nd' m) = - 1"
    proof (cases "m < ni")
      case True
      then show ?thesis using inv lv old [OF True] by (simp add: nodes_inv_def)
    next
      case False
      then have n: "level (?nd' m) = l" "parent_node (?nd' m) = int q - 1"
        using new [of m] m by auto
      with lv par show ?thesis by auto
    qed
  qed
  have c6: "\<forall>m<ni + c. parent_node (?nd' m) < int (Suc q)"
  proof (intro allI impI)
    fix m assume m: "m < ni + c"
    show "parent_node (?nd' m) < int (Suc q)"
    proof (cases "m < ni")
      case True
      then have "parent_node (?nd m) < int q" using inv by (simp add: nodes_inv_def)
      then show ?thesis using old [OF True] by simp
    next
      case False
      then show ?thesis using new [of m] m by auto
    qed
  qed
  have c5: "\<forall>m m'. m \<le> m' \<and> m' < ni + c \<longrightarrow> parent_node (?nd' m) \<le> parent_node (?nd' m')"
  proof (intro allI impI)
    fix m m' assume mm: "m \<le> m' \<and> m' < ni + c"
    show "parent_node (?nd' m) \<le> parent_node (?nd' m')"
    proof (cases "m' < ni")
      case True
      then have "m < ni" using mm by simp
      then show ?thesis using inv True mm old [of m] old [of m'] by (simp add: nodes_inv_def)
    next
      case False
      then have n': "parent_node (?nd' m') = int q - 1" using new [of m'] mm by auto
      show ?thesis
      proof (cases "m < ni")
        case True
        then have "parent_node (?nd m) < int q" using inv by (simp add: nodes_inv_def)
        then show ?thesis using n' old [OF True] by simp
      next
        case False
        then show ?thesis using n' new [of m] mm by auto
      qed
    qed
  qed
  show ?thesis
    unfolding nodes_inv_def using c1 c2 c3 c4 c5 c6 by blast
qed

lemma parent_ok_step:
  assumes "parent_ok L l b q (Suc k) (psci_non_cpu_pd_nodes s)" "b \<le> ni"
  shows "parent_ok L l b (Suc q) k (psci_non_cpu_pd_nodes (init_children ni c p l s))"
  using assms by (auto simp: parent_ok_def init_children_nodes)

lemma nodes_inv_alloc_level:
  assumes "nodes_inv L l b ni q (psci_non_cpu_pd_nodes s)" "1 \<le> l" "l \<le> L"
    and "parent_ok L l b q k (psci_non_cpu_pd_nodes s)"
  shows "nodes_inv L l b (ni + children_sum d q k) (q + k)
           (psci_non_cpu_pd_nodes (alloc_level d l k q ni s))"
  using assms
proof (induction k arbitrary: q ni s)
  case 0
  then show ?case by simp
next
  case (Suc k)
  let ?s = "init_children ni (unat (d q)) (int q - 1) l s"
  have bni: "b \<le> ni" using Suc.prems(1) by (simp add: nodes_inv_def)
  have 1: "nodes_inv L l b (ni + unat (d q)) (Suc q) (psci_non_cpu_pd_nodes ?s)"
    using nodes_inv_step [OF Suc.prems(1) Suc.prems(2) Suc.prems(3) Suc.prems(4)] .
  have 2: "parent_ok L l b (Suc q) k (psci_non_cpu_pd_nodes ?s)"
    using parent_ok_step [OF Suc.prems(4) bni] .
  show ?case
    using Suc.IH [OF 1 Suc.prems(2) Suc.prems(3) 2] by (simp add: add.assoc)
qed

lemma alloc_level_rest:
  "psci_plat_pm_ops (alloc_level d l k q ni s) = psci_plat_pm_ops s"
  "psci_caps (alloc_level d l k q ni s) = psci_caps s"
  by (induction k arbitrary: q ni s) (simp_all add: init_children_rest)

lemma alloc_level_nodes_frame:
  "cpu_start_idx (psci_non_cpu_pd_nodes (alloc_level d l k q ni s) m) = cpu_start_idx (psci_non_cpu_pd_nodes s m)"
  "ncpus (psci_non_cpu_pd_nodes (alloc_level d l k q ni s) m) = ncpus (psci_non_cpu_pd_nodes s m)"
  "pd_state (psci_non_cpu_pd_nodes (alloc_level d l k q ni s) m) = pd_state (psci_non_cpu_pd_nodes s m)"
  by (induction k arbitrary: q ni s) (simp_all add: init_children_nodes)

lemma alloc_level_nodes_outside:
  "m < ni \<or> ni + children_sum d q k \<le> m \<or> l \<le> 0 \<Longrightarrow>
     psci_non_cpu_pd_nodes (alloc_level d l k q ni s) m = psci_non_cpu_pd_nodes s m"
  by (induction k arbitrary: q ni s) (auto simp: init_children_nodes)

lemma alloc_level_nodes_inside:
  "0 < l \<Longrightarrow> ni \<le> m \<Longrightarrow> m < ni + children_sum d q k \<Longrightarrow>
     lock_initialised (psci_non_cpu_pd_nodes (alloc_level d l k q ni s) m) \<and>
     level (psci_non_cpu_pd_nodes (alloc_level d l k q ni s) m) = l"
proof (induction k arbitrary: q ni s)
  case 0
  then show ?case by simp
next
  case (Suc k)
  show ?case
  proof (cases "m < ni + unat (d q)")
    case True
    then show ?thesis using Suc.prems
      by (simp add: alloc_level_nodes_outside init_children_nodes)
  next
    case False
    then show ?thesis using Suc.prems Suc.IH [of "ni + unat (d q)" "Suc q"] by (simp add: add.assoc)
  qed
qed

lemma alloc_level_cpus_outside:
  "c < ni \<or> ni + children_sum d q k \<le> c \<or> 0 < l \<Longrightarrow>
     psci_cpu_pd_nodes (alloc_level d l k q ni s) c = psci_cpu_pd_nodes s c \<and>
     cpu_data (alloc_level d l k q ni s) c = cpu_data s c \<and>
     cm_ns_context (alloc_level d l k q ni s) c = cm_ns_context s c"
  by (induction k arbitrary: q ni s)
     (auto simp: init_children_cpus init_children_cpu_data init_children_ctx)

lemma alloc_level_cpus_inside:
  "l \<le> 0 \<Longrightarrow> ni \<le> c \<Longrightarrow> c < ni + children_sum d q k \<Longrightarrow>
     int q - 1 \<le> cpu_parent_node (psci_cpu_pd_nodes (alloc_level d l k q ni s) c) \<and>
     cpu_parent_node (psci_cpu_pd_nodes (alloc_level d l k q ni s) c) < int (q + k) - 1 \<and>
     mpidr (psci_cpu_pd_nodes (alloc_level d l k q ni s) c) = - 1 \<and>
     psci_state (cpu_data (alloc_level d l k q ni s) c) = PSCI_STATE_OFF \<and>
     power_state (cpu_data (alloc_level d l k q ni s) c) = PSCI_INVALID_DATA \<and>
     cm_ns_context (alloc_level d l k q ni s) c = Some c"
proof (induction k arbitrary: q ni s)
  case 0
  then show ?case by simp
next
  case (Suc k)
  show ?case
  proof (cases "c < ni + unat (d q)")
    case True
    then show ?thesis using Suc.prems
      by (simp add: alloc_level_cpus_outside init_children_cpus init_children_cpu_data init_children_ctx)
  next
    case False
    then have "ni + unat (d q) \<le> c" "c < ni + unat (d q) + children_sum d (Suc q) k"
      using Suc.prems by simp_all
    from Suc.IH [OF Suc.prems(1) this, of "init_children ni (unat (d q)) (int q - 1) l s"]
    show ?thesis by simp
  qed
qed

lemma alloc_level_cpus_mono:
  "l \<le> 0 \<Longrightarrow> ni \<le> c \<Longrightarrow> c \<le> c' \<Longrightarrow> c' < ni + children_sum d q k \<Longrightarrow>
     cpu_parent_node (psci_cpu_pd_nodes (alloc_level d l k q ni s) c)
       \<le> cpu_parent_node (psci_cpu_pd_nodes (alloc_level d l k q ni s) c')"
proof (induction k arbitrary: q ni s)
  case 0
  then show ?case by simp
next
  case (Suc k)
  let ?s = "init_children ni (unat (d q)) (int q - 1) l s"
  show ?case
  proof (cases "c' < ni + unat (d q)")
    case True
    then show ?thesis using Suc.prems
      by (simp add: alloc_level_cpus_outside init_children_cpus)
  next
    case False
    note c' = this
    show ?thesis
    proof (cases "c < ni + unat (d q)")
      case True
      have "cpu_parent_node (psci_cpu_pd_nodes (alloc_level d l (Suc k) q ni s) c) = int q - 1"
        using True Suc.prems by (simp add: alloc_level_cpus_outside init_children_cpus)
      moreover have "int (Suc q) - 1 \<le> cpu_parent_node (psci_cpu_pd_nodes (alloc_level d l k (Suc q) (ni + unat (d q)) ?s) c')"
        using alloc_level_cpus_inside [of l "ni + unat (d q)" c' d "Suc q" k ?s] c' Suc.prems
        by (simp add: add.assoc)
      ultimately show ?thesis by simp
    next
      case False
      then show ?thesis using Suc.prems Suc.IH [of "ni + unat (d q)" "Suc q"] by (simp add: add.assoc)
    qed
  qed
qed

lemma lvl_entries_fst_pos: "1 \<le> fst (lvl_entries d (Suc i))"
  by (induction i) (auto split: prod.splits)

lemma lvl_entries_fst_mono: "i \<le> j \<Longrightarrow> fst (lvl_entries d i) \<le> fst (lvl_entries d j)"
proof (induction j)
  case 0
  then show ?case by simp
next
  case (Suc j)
  show ?case
  proof (cases "i = Suc j")
    case True
    then show ?thesis by simp
  next
    case False
    with Suc have "fst (lvl_entries d i) \<le> fst (lvl_entries d j)" by simp
    then show ?thesis by (auto split: prod.splits)
  qed
qed

lemma lvl_entries_Suc_fst:
  "fst (lvl_entries d (Suc i)) = fst (lvl_entries d i) + snd (lvl_entries d i)"
  by (simp split: prod.splits)

lemma lvl_entries_Suc_snd:
  "snd (lvl_entries d (Suc i)) = children_sum d (fst (lvl_entries d i)) (snd (lvl_entries d i))"
  by (simp split: prod.splits)

lemma populate_levels_exit:
  "l < 0 \<Longrightarrow> populate_levels cfg d l n (v, s) = Inr (v, s)"
  by (subst populate_levels.simps) simp

lemma populate_levels_iter:
  "0 \<le> l \<Longrightarrow> populate_level cfg d l n (v\<lparr>num_nodes_at_next_lvl := 0\<rparr>, s) = Inr (v', s') \<Longrightarrow>
     populate_levels cfg d l n (v, s) =
       populate_levels cfg d (l - 1) (num_nodes_at_next_lvl v')
         (if l - 1 = 0 then v'\<lparr>node_index := 0\<rparr> else v', s')"
  by (subst populate_levels.simps) (simp del: populate_levels.simps)

lemma populate_levels_abort:
  "0 \<le> l \<Longrightarrow> populate_level cfg d l n (v\<lparr>num_nodes_at_next_lvl := 0\<rparr>, s) = Inl e \<Longrightarrow>
     populate_levels cfg d l n (v, s) = Inl e"
  by (subst populate_levels.simps) (simp del: populate_levels.simps)

lemma populate_levels_ok:
  assumes bound: "int (non_cpu_count d L) \<le> assert_bound cfg"
    and j: "j \<le> L"
    and v: "parent_node_index v = fst (lvl_entries d (L - j))"
           "node_index v = (if j = 0 then 0 else fst (lvl_entries d (L - j)) + snd (lvl_entries d (L - j)) - 1)"
  shows "\<exists>vf. populate_levels cfg d (int j) (snd (lvl_entries d (L - j))) (v, tree_upto d L (L - j) s)
              = Inr (vf, tree_upto d L (Suc L) s) \<and>
            (0 < snd (lvl_entries d L) \<longrightarrow> j_var vf = leaf_count d L)"
  using j v
proof (induction j arbitrary: v)
  case 0
  let ?p = "fst (lvl_entries d L)" and ?n = "snd (lvl_entries d L)"
  have le: "?p + ?n - 1 \<le> non_cpu_count d L"
    by (simp add: non_cpu_count_def split: prod.splits)
  have b: "?n = 0 \<or> int (parent_node_index (v\<lparr>num_nodes_at_next_lvl := 0\<rparr>) + ?n) - 1
            \<le> assert_bound cfg"
    using bound le "0.prems" by auto
  have t: "tree_upto d L (Suc L) s = alloc_level d 0 ?n ?p 0 (tree_upto d L L s)"
    by (simp split: prod.splits)
  define v1 where "v1 = (if ?n = 0 then v\<lparr>num_nodes_at_next_lvl := 0\<rparr>
                else v\<lparr>num_nodes_at_next_lvl := 0\<rparr>\<lparr>j_var := node_index v + children_sum d ?p ?n,
                       node_index := node_index v + children_sum d ?p ?n,
                       num_nodes_at_next_lvl := children_sum d ?p ?n,
                       parent_node_index := ?p + ?n\<rparr>)"
  have step: "populate_level cfg d 0 ?n (v\<lparr>num_nodes_at_next_lvl := 0\<rparr>, tree_upto d L L s)
        = Inr (v1, tree_upto d L (Suc L) s)"
    using "0.prems" by (simp add: populate_level_ok [OF b] v1_def t del: tree_upto.simps lvl_entries.simps)
  have "populate_levels cfg d 0 ?n (v, tree_upto d L L s) = Inr (v1, tree_upto d L (Suc L) s)"
    by (simp add: populate_levels_iter [OF _ step] populate_levels_exit del: populate_levels.simps tree_upto.simps)
  moreover have "0 < ?n \<longrightarrow> j_var v1 = leaf_count d L"
    using "0.prems" by (simp add: v1_def leaf_count_def lvl_entries_Suc_snd del: lvl_entries.simps)
  ultimately show ?case by (simp del: populate_levels.simps tree_upto.simps lvl_entries.simps)
next
  case (Suc j)
  let ?i = "L - Suc j"
  let ?p = "fst (lvl_entries d ?i)" and ?n = "snd (lvl_entries d ?i)"
  have i: "L - j = Suc ?i" using Suc.prems by simp
  have "fst (lvl_entries d (Suc ?i)) \<le> fst (lvl_entries d (Suc L))"
    by (rule lvl_entries_fst_mono) simp
  then have le: "?p + ?n - 1 \<le> non_cpu_count d L"
    by (simp add: non_cpu_count_def lvl_entries_Suc_fst del: lvl_entries.simps)
  have b: "?n = 0 \<or> int (parent_node_index (v\<lparr>num_nodes_at_next_lvl := 0\<rparr>) + ?n) - 1
            \<le> assert_bound cfg"
    using bound le Suc.prems by auto
  have pos: "1 \<le> ?p + ?n" using lvl_entries_fst_pos [of d ?i] by (simp add: lvl_entries_Suc_fst del: lvl_entries.simps)
  have t: "tree_upto d L (L - j) s = alloc_level d (int (Suc j)) ?n ?p (?p + ?n - 1) (tree_upto d L ?i s)"
    using Suc.prems by (simp add: i split: prod.splits)
  define v1 where "v1 = (if ?n = 0 then v\<lparr>num_nodes_at_next_lvl := 0\<rparr>
                else v\<lparr>num_nodes_at_next_lvl := 0\<rparr>\<lparr>j_var := node_index v + children_sum d ?p ?n,
                       node_index := node_index v + children_sum d ?p ?n,
                       num_nodes_at_next_lvl := children_sum d ?p ?n,
                       parent_node_index := ?p + ?n\<rparr>)"
  define v2 where "v2 = (if int (Suc j) - 1 = 0 then v1\<lparr>node_index := 0\<rparr> else v1)"
  have n1: "num_nodes_at_next_lvl v1 = snd (lvl_entries d (L - j))"
    by (simp add: v1_def i lvl_entries_Suc_snd del: lvl_entries.simps)
  have p2: "parent_node_index v2 = fst (lvl_entries d (L - j))"
    using Suc.prems by (simp add: v2_def v1_def i lvl_entries_Suc_fst del: lvl_entries.simps)
  have ni2: "node_index v2 = (if j = 0 then 0 else fst (lvl_entries d (L - j)) + snd (lvl_entries d (L - j)) - 1)"
    using Suc.prems pos
    by (auto simp add: v2_def v1_def i lvl_entries_Suc_fst lvl_entries_Suc_snd simp del: lvl_entries.simps)
  have jL: "j \<le> L" using Suc.prems by simp
  have step: "populate_level cfg d (int (Suc j)) ?n (v\<lparr>num_nodes_at_next_lvl := 0\<rparr>, tree_upto d L ?i s)
        = Inr (v1, tree_upto d L (L - j) s)"
    using Suc.prems by (simp add: populate_level_ok [OF b] v1_def t del: tree_upto.simps lvl_entries.simps)
  have eq: "populate_levels cfg d (int (Suc j)) (snd (lvl_entries d (L - Suc j))) (v, tree_upto d L (L - Suc j) s)
          = populate_levels cfg d (int j) (snd (lvl_entries d (L - j))) (v2, tree_upto d L (L - j) s)"
    using populate_levels_iter [OF _ step] n1
    by (simp add: v2_def del: populate_levels.simps tree_upto.simps lvl_entries.simps)
  show ?case using Suc.IH [OF jL p2 ni2] by (simp only: eq)
qed

lemma nodes_inv_next_level:
  "nodes_inv L (l + 1) b t q nd \<Longrightarrow> nodes_inv L l t t q nd"
  unfolding nodes_inv_def
  apply (intro conjI)
       apply simp
      apply force
     apply force
    apply simp
   apply simp
  apply simp
  done

lemma tree_upto_nodes_inv:
  "i \<le> L \<Longrightarrow>
     nodes_inv (int L) (int L - int i + 1) (fst (lvl_entries d i) - 1)
       (fst (lvl_entries d i) + snd (lvl_entries d i) - 1) (fst (lvl_entries d i))
       (psci_non_cpu_pd_nodes (tree_upto d L i s))"
proof (induction i)
  case 0
  show ?case by (simp add: nodes_inv_def)
next
  case (Suc i)
  let ?p = "fst (lvl_entries d i)" and ?n = "snd (lvl_entries d i)"
  let ?l = "int L - int i"
  let ?s = "tree_upto d L i s"
  have iL: "i < L" using Suc.prems by simp
  have IH: "nodes_inv (int L) (?l + 1) (?p - 1) (?p + ?n - 1) ?p (psci_non_cpu_pd_nodes ?s)"
    using Suc.IH iL by simp
  have start: "nodes_inv (int L) ?l (?p + ?n - 1) (?p + ?n - 1) ?p (psci_non_cpu_pd_nodes ?s)"
    by (rule nodes_inv_next_level [OF IH])
  have l: "1 \<le> ?l" "?l \<le> int L" using iL by simp_all
  have pos: "i = 0 \<or> 1 \<le> ?p"
    using lvl_entries_fst_pos [of d "i - 1"] by (cases i) (simp_all del: lvl_entries.simps)
  have lev: "\<forall>m. ?p - 1 \<le> m \<and> m < ?p + ?n - 1 \<longrightarrow> level (psci_non_cpu_pd_nodes ?s m) = ?l + 1"
    using IH unfolding nodes_inv_def by blast
  have ok: "parent_ok (int L) ?l (?p + ?n - 1) ?p ?n (psci_non_cpu_pd_nodes ?s)"
  proof (cases "i = 0")
    case True
    then show ?thesis by (simp add: parent_ok_def)
  next
    case False
    with pos have "1 \<le> ?p" by simp
    then show ?thesis using False lev iL unfolding parent_ok_def by auto
  qed
  have t: "tree_upto d L (Suc i) s = alloc_level d ?l ?n ?p (?p + ?n - 1) ?s"
    using iL by (simp split: prod.splits)
  have pn: "1 \<le> ?p + ?n" using pos by (cases "i = 0") auto
  have res: "nodes_inv (int L) ?l (?p + ?n - 1) (?p + ?n - 1 + children_sum d ?p ?n) (?p + ?n)
               (psci_non_cpu_pd_nodes (alloc_level d ?l ?n ?p (?p + ?n - 1) ?s))"
    by (rule nodes_inv_alloc_level [OF start l ok])
  have e1: "int L - int (Suc i) + 1 = ?l" by simp
  have e2: "fst (lvl_entries d (Suc i)) = ?p + ?n" by (rule lvl_entries_Suc_fst)
  have e3: "snd (lvl_entries d (Suc i)) = children_sum d ?p ?n" by (rule lvl_entries_Suc_snd)
  have e4: "?p + ?n + children_sum d ?p ?n - 1 = ?p + ?n - 1 + children_sum d ?p ?n" using pn by simp
  show ?case unfolding e1 e2 e3 e4 t using res .
qed

lemma lvl_entries_sum_pos: "1 \<le> fst (lvl_entries d i) + snd (lvl_entries d i)"
  using lvl_entries_fst_pos [of d i] by (simp add: lvl_entries_Suc_fst del: lvl_entries.simps)

lemma tree_upto_rest:
  "psci_plat_pm_ops (tree_upto d L i s) = psci_plat_pm_ops s"
  "psci_caps (tree_upto d L i s) = psci_caps s"
  by (induction i) (simp_all add: alloc_level_rest split: prod.splits)

lemma tree_upto_nodes_frame:
  "cpu_start_idx (psci_non_cpu_pd_nodes (tree_upto d L i s) m) = cpu_start_idx (psci_non_cpu_pd_nodes s m)"
  "ncpus (psci_non_cpu_pd_nodes (tree_upto d L i s) m) = ncpus (psci_non_cpu_pd_nodes s m)"
  "pd_state (psci_non_cpu_pd_nodes (tree_upto d L i s) m) = pd_state (psci_non_cpu_pd_nodes s m)"
  by (induction i) (simp_all add: alloc_level_nodes_frame split: prod.splits)

lemma tree_upto_cpus_frame:
  "i \<le> L \<Longrightarrow>
     psci_cpu_pd_nodes (tree_upto d L i s) c = psci_cpu_pd_nodes s c \<and>
     cpu_data (tree_upto d L i s) c = cpu_data s c \<and>
     cm_ns_context (tree_upto d L i s) c = cm_ns_context s c"
  by (induction i) (simp_all add: alloc_level_cpus_outside split: prod.splits)

lemma tree_upto_nodes_last:
  "psci_non_cpu_pd_nodes (tree_upto d L (Suc L) s) m = psci_non_cpu_pd_nodes (tree_upto d L L s) m"
  by (simp add: alloc_level_nodes_outside split: prod.splits)

lemma tree_upto_nodes_beyond:
  "i \<le> L \<Longrightarrow> fst (lvl_entries d i) + snd (lvl_entries d i) - 1 \<le> m \<Longrightarrow>
     psci_non_cpu_pd_nodes (tree_upto d L i s) m = psci_non_cpu_pd_nodes s m"
proof (induction i)
  case 0
  then show ?case by simp
next
  case (Suc i)
  let ?p = "fst (lvl_entries d i)" and ?n = "snd (lvl_entries d i)"
  have pos: "1 \<le> ?p + ?n" by (rule lvl_entries_sum_pos)
  have m: "?p + ?n - 1 + children_sum d ?p ?n \<le> m"
    using Suc.prems(2) pos by (simp add: lvl_entries_Suc_fst lvl_entries_Suc_snd del: lvl_entries.simps)
  then have m': "?p + ?n - 1 \<le> m" by simp
  have t: "tree_upto d L (Suc i) s = alloc_level d (int L - int i) ?n ?p (?p + ?n - 1) (tree_upto d L i s)"
    using Suc.prems by (simp split: prod.splits)
  show ?case
    unfolding t using m Suc.IH m' Suc.prems(1) by (simp add: alloc_level_nodes_outside)
qed

lemma non_cpu_count_eq:
  "non_cpu_count d L = fst (lvl_entries d L) + snd (lvl_entries d L) - 1"
  by (simp add: non_cpu_count_def split: prod.splits)

lemma tree_nodes_beyond:
  "non_cpu_count d L \<le> m \<Longrightarrow>
     psci_non_cpu_pd_nodes (tree_upto d L (Suc L) s) m = psci_non_cpu_pd_nodes s m"
  unfolding tree_upto_nodes_last non_cpu_count_eq
  by (rule tree_upto_nodes_beyond) simp_all

lemma tree_cpus_beyond:
  "leaf_count d L \<le> c \<Longrightarrow>
     psci_cpu_pd_nodes (tree_upto d L (Suc L) s) c = psci_cpu_pd_nodes s c \<and>
     cpu_data (tree_upto d L (Suc L) s) c = cpu_data s c \<and>
     cm_ns_context (tree_upto d L (Suc L) s) c = cm_ns_context s c"
  using tree_upto_cpus_frame [of L L d s c]
  by (simp add: alloc_level_cpus_outside leaf_count_def split: prod.splits)

lemma tree_cpus_inside:
  assumes "c < leaf_count d L"
  shows "int (fst (lvl_entries d L)) - 1 \<le> cpu_parent_node (psci_cpu_pd_nodes (tree_upto d L (Suc L) s) c) \<and>
     cpu_parent_node (psci_cpu_pd_nodes (tree_upto d L (Suc L) s) c) < int (non_cpu_count d L) \<and>
     mpidr (psci_cpu_pd_nodes (tree_upto d L (Suc L) s) c) = - 1 \<and>
     psci_state (cpu_data (tree_upto d L (Suc L) s) c) = PSCI_STATE_OFF \<and>
     power_state (cpu_data (tree_upto d L (Suc L) s) c) = PSCI_INVALID_DATA \<and>
     cm_ns_context (tree_upto d L (Suc L) s) c = Some c"
proof -
  let ?p = "fst (lvl_entries d L)" and ?n = "snd (lvl_entries d L)"
  have t: "tree_upto d L (Suc L) s = alloc_level d 0 ?n ?p 0 (tree_upto d L L s)"
    by (simp split: prod.splits)
  have c: "c < 0 + children_sum d ?p ?n"
    using assms by (simp add: leaf_count_def lvl_entries_Suc_snd del: lvl_entries.simps)
  have pos: "1 \<le> ?p + ?n" by (rule lvl_entries_sum_pos)
  have "int (?p + ?n) - 1 = int (non_cpu_count d L)"
    using pos unfolding non_cpu_count_eq by linarith
  then show ?thesis
    unfolding t using alloc_level_cpus_inside [OF _ _ c, of 0 "tree_upto d L L s"] by simp
qed

lemma tree_cpus_mono:
  assumes "c \<le> c'" "c' < leaf_count d L"
  shows "cpu_parent_node (psci_cpu_pd_nodes (tree_upto d L (Suc L) s) c)
           \<le> cpu_parent_node (psci_cpu_pd_nodes (tree_upto d L (Suc L) s) c')"
proof -
  let ?p = "fst (lvl_entries d L)" and ?n = "snd (lvl_entries d L)"
  have t: "tree_upto d L (Suc L) s = alloc_level d 0 ?n ?p 0 (tree_upto d L L s)"
    by (simp split: prod.splits)
  have c: "c' < 0 + children_sum d ?p ?n"
    using assms by (simp add: leaf_count_def lvl_entries_Suc_snd del: lvl_entries.simps)
  show ?thesis unfolding t using alloc_level_cpus_mono [OF _ _ assms(1) c, of 0 "tree_upto d L L s"] by simp
qed

lemma tree_built_wf:
  "tree_wf L (non_cpu_count d L) (leaf_count d L) (tree_upto d L (Suc L) s)"
proof -
  let ?p = "fst (lvl_entries d L)" and ?n = "snd (lvl_entries d L)"
  let ?M = "non_cpu_count d L"
  let ?nd = "psci_non_cpu_pd_nodes (tree_upto d L (Suc L) s)"
  let ?cp = "\<lambda>c. cpu_parent_node (psci_cpu_pd_nodes (tree_upto d L (Suc L) s) c)"
  have nd: "?nd = psci_non_cpu_pd_nodes (tree_upto d L L s)"
    by (rule ext) (rule tree_upto_nodes_last)
  have inv: "nodes_inv (int L) 1 (?p - 1) ?M ?p ?nd"
    using tree_upto_nodes_inv [of L L d s] unfolding nd non_cpu_count_eq by simp
  have w1: "\<forall>m<?M. 1 \<le> level (?nd m) \<and> level (?nd m) \<le> int L"
    using inv unfolding nodes_inv_def by blast
  have bM: "?p - 1 \<le> ?M" using inv unfolding nodes_inv_def by blast
  have w2: "\<forall>m<?M. level (?nd m) < int L \<longrightarrow>
        0 \<le> parent_node (?nd m) \<and> parent_node (?nd m) < int ?M \<and>
        level (?nd (nat (parent_node (?nd m)))) = level (?nd m) + 1"
  proof (intro allI impI)
    fix m assume "m < ?M" "level (?nd m) < int L"
    then have "0 \<le> parent_node (?nd m) \<and> parent_node (?nd m) < int (?p - 1) \<and>
        level (?nd (nat (parent_node (?nd m)))) = level (?nd m) + 1"
      using inv unfolding nodes_inv_def by blast
    then show "0 \<le> parent_node (?nd m) \<and> parent_node (?nd m) < int ?M \<and>
        level (?nd (nat (parent_node (?nd m)))) = level (?nd m) + 1"
      using bM by linarith
  qed
  have w3: "\<forall>m<?M. level (?nd m) = int L \<longrightarrow> parent_node (?nd m) = - 1"
    using inv unfolding nodes_inv_def by blast
  have w4: "\<forall>m m'. m \<le> m' \<and> m' < ?M \<longrightarrow> parent_node (?nd m) \<le> parent_node (?nd m')"
    using inv unfolding nodes_inv_def by blast
  have lev1: "\<And>m. ?p - 1 \<le> m \<Longrightarrow> m < ?M \<Longrightarrow> level (?nd m) = 1"
    using inv unfolding nodes_inv_def by blast
  have w5: "\<forall>c<leaf_count d L. if 0 < L
        then 0 \<le> ?cp c \<and> ?cp c < int ?M \<and> level (?nd (nat (?cp c))) = 1
        else ?cp c = - 1"
  proof (intro allI impI)
    fix c assume c: "c < leaf_count d L"
    have r: "int ?p - 1 \<le> ?cp c" "?cp c < int ?M"
      using tree_cpus_inside [OF c, of s] by simp_all
    show "if 0 < L then 0 \<le> ?cp c \<and> ?cp c < int ?M \<and> level (?nd (nat (?cp c))) = 1
        else ?cp c = - 1"
    proof (cases "0 < L")
      case True
      then have "1 \<le> ?p" using lvl_entries_fst_pos [of d "L - 1"] by (cases L) (simp_all del: lvl_entries.simps)
      with r have "0 \<le> ?cp c" "?p - 1 \<le> nat (?cp c)" "nat (?cp c) < ?M" by linarith+
      then show ?thesis using True r lev1 [of "nat (?cp c)"] by simp
    next
      case False
      then have "?p = 0" "?M = 0" by (simp_all add: non_cpu_count_eq)
      with r False show ?thesis by simp
    qed
  qed
  have w6: "\<forall>c c'. c \<le> c' \<and> c' < leaf_count d L \<longrightarrow> ?cp c \<le> ?cp c'"
    using tree_cpus_mono by blast
  show ?thesis unfolding tree_wf_def using w1 w2 w3 w4 w5 w6 by blast
qed

lemma limits_step_eq:
  "j < length ni \<Longrightarrow> limits_step c temp j (ni, s) =
     (ni[j := temp ! j],
      s\<lparr>psci_non_cpu_pd_nodes := (psci_non_cpu_pd_nodes s)
          (temp ! j := (psci_non_cpu_pd_nodes s (temp ! j))
             \<lparr>cpu_start_idx := (if temp ! j \<noteq> ni ! j then c else cpu_start_idx (psci_non_cpu_pd_nodes s (temp ! j))),
              ncpus := ncpus (psci_non_cpu_pd_nodes s (temp ! j)) + 1\<rparr>)\<rparr>)"
  by (cases "temp ! j = ni ! j") (simp_all add: limits_step_def Let_def list_update_same_conv)

lemma limits_after_Suc_same:
  assumes dist: "\<forall>k<n. temp ! k \<noteq> temp ! n"
  shows "limits_after c temp (ni[n := temp ! n]) n
           (nd(temp ! n := (nd (temp ! n))
             \<lparr>cpu_start_idx := (if temp ! n \<noteq> ni ! n then c else cpu_start_idx (nd (temp ! n))),
              ncpus := ncpus (nd (temp ! n)) + 1\<rparr>)) (temp ! n)
         = limits_after c temp ni (Suc n) nd (temp ! n)"
proof -
  have no: "\<And>P. \<not> (\<exists>k<n. temp ! k = temp ! n \<and> P k)" using dist by auto
  have no': "\<not> (\<exists>k<n. temp ! k = temp ! n)" using dist by auto
  have y1: "(\<exists>k<Suc n. temp ! k = temp ! n)" by auto
  have y2: "(\<exists>k<Suc n. temp ! k = temp ! n \<and> temp ! k \<noteq> ni ! k) \<longleftrightarrow> temp ! n \<noteq> ni ! n"
    using dist by (auto simp: less_Suc_eq)
  show ?thesis
    unfolding limits_after_def y2 by (simp only: no no' y1 if_True if_False fun_upd_same) simp
qed

lemma limits_after_Suc_other:
  assumes "temp ! n \<noteq> m"
  shows "limits_after c temp (ni[n := temp ! n]) n (nd(temp ! n := x)) m
         = limits_after c temp ni (Suc n) nd m"
proof -
  have y1: "(\<exists>k<Suc n. temp ! k = m) \<longleftrightarrow> (\<exists>k<n. temp ! k = m)"
    using assms by (auto simp: less_Suc_eq)
  have y2: "(\<exists>k<Suc n. temp ! k = m \<and> temp ! k \<noteq> ni ! k) \<longleftrightarrow> (\<exists>k<n. temp ! k = m \<and> temp ! k \<noteq> ni ! k)"
    using assms by (auto simp: less_Suc_eq)
  have y3: "(\<exists>k<n. temp ! k = m \<and> temp ! k \<noteq> ni[n := temp ! n] ! k) \<longleftrightarrow> (\<exists>k<n. temp ! k = m \<and> temp ! k \<noteq> ni ! k)"
    by auto
  have f: "(nd(temp ! n := x)) m = nd m" using assms by simp
  show ?thesis
    unfolding limits_after_def y1 y2 y3 f ..
qed
lemma fold_limits_step:
  assumes "distinct temp" "n \<le> length temp" "length ni = length temp"
  shows "fold (limits_step c temp) (rev [0 ..< n]) (ni, s) =
           (take n temp @ drop n ni,
            s\<lparr>psci_non_cpu_pd_nodes := limits_after c temp ni n (psci_non_cpu_pd_nodes s)\<rparr>)"
  using assms
proof (induction n arbitrary: ni s)
  case 0
  have "limits_after c temp ni 0 (psci_non_cpu_pd_nodes s) = psci_non_cpu_pd_nodes s"
    by (rule ext) (simp add: limits_after_def)
  then show ?case by simp
next
  case (Suc n)
  let ?ni = "ni[n := temp ! n]"
  let ?nd = "psci_non_cpu_pd_nodes s"
  let ?nd1 = "?nd(temp ! n := (?nd (temp ! n))
             \<lparr>cpu_start_idx := (if temp ! n \<noteq> ni ! n then c else cpu_start_idx (?nd (temp ! n))),
              ncpus := ncpus (?nd (temp ! n)) + 1\<rparr>)"
  let ?s1 = "s\<lparr>psci_non_cpu_pd_nodes := ?nd1\<rparr>"
  have n: "n < length temp" "n \<le> length temp" "length ?ni = length temp" using Suc.prems by simp_all
  have IH: "fold (limits_step c temp) (rev [0 ..< n]) (?ni, ?s1) =
           (take n temp @ drop n ?ni, ?s1\<lparr>psci_non_cpu_pd_nodes := limits_after c temp ?ni n (psci_non_cpu_pd_nodes ?s1)\<rparr>)"
    by (rule Suc.IH [OF Suc.prems(1) n(2) n(3)])
  have l1: "take n temp @ drop n ?ni = take (Suc n) temp @ drop (Suc n) ni"
  proof -
    have "drop n ?ni = temp ! n # drop (Suc n) ni"
      using n Suc.prems(3) by (simp add: drop_update_cancel flip: Cons_nth_drop_Suc)
    moreover have "take (Suc n) temp = take n temp @ [temp ! n]"
      using n by (simp add: take_Suc_conv_app_nth)
    ultimately show ?thesis by simp
  qed
  have dist: "\<And>k. k < n \<Longrightarrow> temp ! k \<noteq> temp ! n"
    using Suc.prems(1) n(1) by (simp add: nth_eq_iff_index_eq)
  have l2: "limits_after c temp ?ni n ?nd1 = limits_after c temp ni (Suc n) ?nd"
  proof (rule ext)
    fix m
    show "limits_after c temp ?ni n ?nd1 m = limits_after c temp ni (Suc n) ?nd m"
    proof (cases "temp ! n = m")
      case True
      have "\<forall>k<n. temp ! k \<noteq> temp ! n" using dist by simp
      from limits_after_Suc_same [OF this] show ?thesis unfolding True [symmetric] .
    next
      case False
      then show ?thesis by (rule limits_after_Suc_other)
    qed
  qed
  have "fold (limits_step c temp) (rev [0 ..< Suc n]) (ni, s) = fold (limits_step c temp) (rev [0 ..< n]) (?ni, ?s1)"
    using n Suc.prems(3) by (simp add: limits_step_eq)
  also have "\<dots> = (take (Suc n) temp @ drop (Suc n) ni, s\<lparr>psci_non_cpu_pd_nodes := limits_after c temp ni (Suc n) ?nd\<rparr>)"
    unfolding IH l1 using l2 by simp
  finally show ?case .
qed

lemma nth_parent_Suc:
  "nth_parent nd p (Suc k) = parent_node (nd (nat (nth_parent nd p k)))"
  by (induction k arbitrary: p) simp_all

lemma ancestor_Suc:
  "ancestor s c (Suc k) = parent_node (psci_non_cpu_pd_nodes s (nat (ancestor s c k)))"
  unfolding ancestor_def by (rule nth_parent_Suc)

lemma ancestor_0: "ancestor s c 0 = cpu_parent_node (psci_cpu_pd_nodes s c)"
  by (simp add: ancestor_def)

lemma nth_parent_cong:
  "(\<And>m. parent_node (nd m) = parent_node (nd' m)) \<Longrightarrow> nth_parent nd p k = nth_parent nd' p k"
  by (induction k arbitrary: p) simp_all

lemma walk_parents_ok:
  "(\<forall>k<n. 0 \<le> nth_parent nd p k) \<Longrightarrow>
     walk_parents nd p n = Inr (map (\<lambda>k. nat (nth_parent nd p k)) [0 ..< n])"
proof (induction n arbitrary: p)
  case 0
  then show ?case by simp
next
  case (Suc n)
  have p: "0 \<le> p" using Suc.prems by force
  have "\<forall>k<n. 0 \<le> nth_parent nd (parent_node (nd (nat p))) k"
  proof (intro allI impI)
    fix k assume "k < n"
    then have "0 \<le> nth_parent nd p (Suc k)" using Suc.prems by blast
    then show "0 \<le> nth_parent nd (parent_node (nd (nat p))) k" by simp
  qed
  from Suc.IH [OF this] show ?case
    using p by (simp add: map_upt_Suc del: upt_Suc)
qed

lemma walk_parents_bad:
  "k < n \<Longrightarrow> nth_parent nd p k < 0 \<Longrightarrow> walk_parents nd p n = Inl Bad_node_index"
proof (induction n arbitrary: p k)
  case 0
  then show ?case by simp
next
  case (Suc n)
  show ?case
  proof (cases "p < 0")
    case True
    then show ?thesis by simp
  next
    case False
    then obtain k' where k': "k = Suc k'" using Suc.prems by (cases k) auto
    have "walk_parents nd (parent_node (nd (nat p))) n = Inl Bad_node_index"
      using Suc.IH [of k' "parent_node (nd (nat p))"] Suc.prems k' by simp
    then show ?thesis using False by simp
  qed
qed

lemma tree_wf_ancestor:
  assumes wf: "tree_wf L M N s" and c: "c < N"
  shows "k < L \<Longrightarrow> 0 \<le> ancestor s c k \<and> ancestor s c k < int M \<and>
           level (psci_non_cpu_pd_nodes s (nat (ancestor s c k))) = int k + 1"
proof (induction k)
  case 0
  then show ?case using wf c unfolding tree_wf_def ancestor_0 by (auto split: if_splits)
next
  case (Suc k)
  let ?a = "nat (ancestor s c k)"
  have IH: "0 \<le> ancestor s c k" "ancestor s c k < int M"
    "level (psci_non_cpu_pd_nodes s ?a) = int k + 1" using Suc by simp_all
  have a: "?a < M" using IH by linarith
  have lv: "level (psci_non_cpu_pd_nodes s ?a) < int L" using IH Suc.prems by simp
  have "0 \<le> parent_node (psci_non_cpu_pd_nodes s ?a) \<and>
        parent_node (psci_non_cpu_pd_nodes s ?a) < int M \<and>
        level (psci_non_cpu_pd_nodes s (nat (parent_node (psci_non_cpu_pd_nodes s ?a))))
          = level (psci_non_cpu_pd_nodes s ?a) + 1"
    using wf a lv unfolding tree_wf_def by blast
  then show ?case unfolding ancestor_Suc using IH by simp
qed

lemma tree_wf_ancestor_mono:
  assumes wf: "tree_wf L M N s" and c: "c \<le> c'" "c' < N"
  shows "k < L \<Longrightarrow> ancestor s c k \<le> ancestor s c' k"
proof (induction k)
  case 0
  then show ?case using wf c unfolding tree_wf_def ancestor_0 by blast
next
  case (Suc k)
  have cN: "c < N" using c by simp
  have k: "k < L" using Suc.prems by simp
  have le: "ancestor s c k \<le> ancestor s c' k" using Suc by simp
  have b: "0 \<le> ancestor s c k" "ancestor s c' k < int M" "0 \<le> ancestor s c' k"
    using tree_wf_ancestor [OF wf cN k] tree_wf_ancestor [OF wf c(2) k] by simp_all
  have "nat (ancestor s c k) \<le> nat (ancestor s c' k) \<and> nat (ancestor s c' k) < M"
    using le b by linarith
  then show ?case unfolding ancestor_Suc using wf unfolding tree_wf_def by blast
qed

lemma tree_wf_ancestor_level_unique:
  assumes wf: "tree_wf L M N s" and c: "c < N" "c' < N" and k: "k < L" "k' < L"
    and eq: "ancestor s c k = ancestor s c' k'"
  shows "k = k'"
  using tree_wf_ancestor [OF wf c(1) k(1)] tree_wf_ancestor [OF wf c(2) k(2)] eq by simp

lemma covered_finite: "finite (covered s L i m)"
  by (simp add: covered_def)

lemma covered_0: "covered s L 0 m = {}"
  by (simp add: covered_def)

lemma covered_Suc:
  "covered s L (Suc i) m = (if covers s L i m then insert i (covered s L i m) else covered s L i m)"
  by (auto simp: covered_def less_Suc_eq)

lemma covered_less: "c \<in> covered s L i m \<Longrightarrow> c < i"
  by (simp add: covered_def)

lemma limits_spec_0: "limits_spec s L 0 = psci_non_cpu_pd_nodes s"
  by (rule ext) (simp add: limits_spec_def covered_0)

lemma covers_iff:
  assumes wf: "tree_wf L M N s" and c: "c < N"
  shows "covers s L c m \<longleftrightarrow> (\<exists>k<L. nat (ancestor s c k) = m)"
proof -
  have "\<And>k. k < L \<Longrightarrow> (ancestor s c k = int m) = (nat (ancestor s c k) = m)"
    using tree_wf_ancestor [OF wf c] by auto
  then show ?thesis unfolding covers_def by auto
qed

lemma covered_empty_before:
  assumes wf: "tree_wf L M N s" and i: "i < N" "0 < i"
    and cv: "covers s L i m" and ncv: "\<not> covers s L (i - 1) m"
  shows "covered s L i m = {}"
proof (rule ccontr)
  assume "covered s L i m \<noteq> {}"
  then obtain c where c: "c < i" "covers s L c m" by (auto simp: covered_def)
  from cv obtain k where k: "k < L" "ancestor s i k = int m" by (auto simp: covers_def)
  from c obtain k' where k': "k' < L" "ancestor s c k' = int m" by (auto simp: covers_def)
  have cN: "c < N" using c i by simp
  have kk: "k' = k"
    using tree_wf_ancestor_level_unique [OF wf cN i(1) k'(1) k(1)] k k' by simp
  have i1: "i - 1 < N" "c \<le> i - 1" "i - 1 \<le> i" using i c by simp_all
  have "ancestor s c k \<le> ancestor s (i - 1) k"
    by (rule tree_wf_ancestor_mono [OF wf i1(2) i1(1) k(1)])
  moreover have "ancestor s (i - 1) k \<le> ancestor s i k"
    by (rule tree_wf_ancestor_mono [OF wf i1(3) i(1) k(1)])
  ultimately have "ancestor s (i - 1) k = int m" using k k' kk by simp
  then have "covers s L (i - 1) m" using k by (auto simp: covers_def)
  with ncv show False by simp
qed

lemma changed_iff:
  assumes wf: "tree_wf L M N s" and i: "i < N"
  shows "(\<exists>k<L. nat (ancestor s i k) = m \<and>
            nat (ancestor s i k) \<noteq> (if i = 0 then replicate L 0 else map (\<lambda>k. nat (ancestor s (i - 1) k)) [0 ..< L]) ! k)
         \<longleftrightarrow> covers s L i m \<and> (if i = 0 then m \<noteq> 0 else \<not> covers s L (i - 1) m)"
proof (cases "i = 0")
  case True
  show ?thesis unfolding covers_iff [OF wf i] using True by auto
next
  case False
  then have i1: "i - 1 < N" using i by simp
  have nth: "\<And>k. k < L \<Longrightarrow> map (\<lambda>k. nat (ancestor s (i - 1) k)) [0 ..< L] ! k = nat (ancestor s (i - 1) k)"
    by simp
  have uniq: "\<And>k k'. k < L \<Longrightarrow> k' < L \<Longrightarrow> nat (ancestor s i k) = nat (ancestor s (i - 1) k') \<Longrightarrow> k = k'"
  proof -
    fix k k' assume k: "k < L" "k' < L" and e: "nat (ancestor s i k) = nat (ancestor s (i - 1) k')"
    have "ancestor s i k = ancestor s (i - 1) k'"
      using e tree_wf_ancestor [OF wf i k(1)] tree_wf_ancestor [OF wf i1 k(2)] by linarith
    then show "k = k'" by (rule tree_wf_ancestor_level_unique [OF wf i i1 k])
  qed
  show ?thesis
  proof
    assume "\<exists>k<L. nat (ancestor s i k) = m \<and>
            nat (ancestor s i k) \<noteq> (if i = 0 then replicate L 0 else map (\<lambda>k. nat (ancestor s (i - 1) k)) [0 ..< L]) ! k"
    then obtain k where k: "k < L" "nat (ancestor s i k) = m" "nat (ancestor s i k) \<noteq> nat (ancestor s (i - 1) k)"
      using False nth by auto
    have "covers s L i m" unfolding covers_iff [OF wf i] using k by blast
    moreover have "\<not> covers s L (i - 1) m"
    proof
      assume "covers s L (i - 1) m"
      then obtain k' where k': "k' < L" "nat (ancestor s (i - 1) k') = m"
        unfolding covers_iff [OF wf i1] by blast
      then have "k = k'" using uniq [OF k(1) k'(1)] k by simp
      with k k' show False by simp
    qed
    ultimately show "covers s L i m \<and> (if i = 0 then m \<noteq> 0 else \<not> covers s L (i - 1) m)"
      using False by simp
  next
    assume a: "covers s L i m \<and> (if i = 0 then m \<noteq> 0 else \<not> covers s L (i - 1) m)"
    then obtain k where k: "k < L" "nat (ancestor s i k) = m"
      unfolding covers_iff [OF wf i] by blast
    have "nat (ancestor s (i - 1) k) \<noteq> m"
      using a False k(1) unfolding covers_iff [OF wf i1] by auto
    then show "\<exists>k<L. nat (ancestor s i k) = m \<and>
            nat (ancestor s i k) \<noteq> (if i = 0 then replicate L 0 else map (\<lambda>k. nat (ancestor s (i - 1) k)) [0 ..< L]) ! k"
      using k False nth by auto
  qed
qed

lemma limits_after_spec:
  assumes wf: "tree_wf L M N s" and i: "i < N"
  shows "limits_after i (map (\<lambda>k. nat (ancestor s i k)) [0 ..< L])
           (if i = 0 then replicate L 0 else map (\<lambda>k. nat (ancestor s (i - 1) k)) [0 ..< L])
           L (limits_spec s L i) m
         = limits_spec s L (Suc i) m"
proof -
  let ?temp = "map (\<lambda>k. nat (ancestor s i k)) [0 ..< L]"
  let ?ni = "if i = 0 then replicate L 0 else map (\<lambda>k. nat (ancestor s (i - 1) k)) [0 ..< L]"
  let ?new = "covers s L i m \<and> (if i = 0 then m \<noteq> 0 else \<not> covers s L (i - 1) m)"
  let ?C = "covered s L i m"
  let ?n = "psci_non_cpu_pd_nodes s m"
  have e1: "(\<exists>k<L. ?temp ! k = m) \<longleftrightarrow> covers s L i m"
    unfolding covers_iff [OF wf i] by (simp cong: conj_cong)
  have "(\<exists>k<L. ?temp ! k = m \<and> ?temp ! k \<noteq> ?ni ! k)
          \<longleftrightarrow> (\<exists>k<L. nat (ancestor s i k) = m \<and> nat (ancestor s i k) \<noteq> ?ni ! k)"
    by (simp cong: conj_cong)
  then have e2: "(\<exists>k<L. ?temp ! k = m \<and> ?temp ! k \<noteq> ?ni ! k) \<longleftrightarrow> ?new"
    using changed_iff [OF wf i, of m] by simp
  have lhs: "limits_after i ?temp ?ni L (limits_spec s L i) m =
          (limits_spec s L i m)\<lparr>cpu_start_idx := (if ?new then i else cpu_start_idx (limits_spec s L i m)),
                 ncpus := ncpus (limits_spec s L i m) + (if covers s L i m then 1 else 0)\<rparr>"
    unfolding limits_after_def e1 e2 ..
  have notin: "i \<notin> ?C" using covered_less [of i s L i m] by auto
  have fin: "finite ?C" by (rule covered_finite)
  show ?thesis
  proof (cases "covers s L i m")
    case False
    have a: "covered s L (Suc i) m = ?C" using False by (simp add: covered_Suc)
    have b: "(m = 0 \<and> 0 \<in> covered s L (Suc i) 0) = (m = 0 \<and> 0 \<in> covered s L i 0)"
      using a by auto
    show ?thesis unfolding lhs limits_spec_def a b using False by simp
  next
    case True
    have cS: "covered s L (Suc i) m = insert i ?C" using True by (simp add: covered_Suc)
    have card: "card (covered s L (Suc i) m) = Suc (card ?C)"
      unfolding cS using notin fin by simp
    show ?thesis
    proof (cases "i = 0")
      case i0: True
      have C0: "?C = {}" using i0 by (simp add: covered_0)
      show ?thesis
      proof (cases "m = 0")
        case True
        have "0 \<in> covered s L (Suc i) 0" using cS i0 True by simp
        then show ?thesis unfolding lhs using \<open>covers s L i m\<close> i0 True C0 card
          by (simp add: limits_spec_def)
      next
        case False
        then show ?thesis unfolding lhs using \<open>covers s L i m\<close> i0 C0 card cS
          by (simp add: limits_spec_def)
      qed
    next
      case ipos: False
      then have ip: "0 < i" by simp
      have zero_iff: "m = 0 \<Longrightarrow> (0 \<in> covered s L (Suc i) 0) = (0 \<in> covered s L i 0)"
        using cS ip by auto
      show ?thesis
      proof (cases "covers s L (i - 1) m")
        case True
        have mem: "i - 1 \<in> ?C" using True ip by (simp add: covered_def)
        then have ne: "?C \<noteq> {}" by auto
        have "Min ?C < i" using covered_less [of "Min ?C" s L i m] Min_in [OF fin ne] by simp
        then have "Min (insert i ?C) = Min ?C"
          using Min_insert [OF fin ne, of i] by simp
        then show ?thesis unfolding lhs using \<open>covers s L i m\<close> True ipos ne card cS zero_iff
          by (auto simp add: limits_spec_def)
      next
        case False
        have C0: "?C = {}" by (rule covered_empty_before [OF wf i ip \<open>covers s L i m\<close> False])
        have "m = 0 \<Longrightarrow> 0 \<notin> covered s L (Suc i) 0" using cS C0 ip by auto
        then show ?thesis unfolding lhs using \<open>covers s L i m\<close> False ipos C0 card cS
          by (auto simp add: limits_spec_def)
      qed
    qed
  qed
qed

lemma limits_spec_parent [simp]:
  "parent_node (limits_spec s L i m) = parent_node (psci_non_cpu_pd_nodes s m)"
  "level (limits_spec s L i m) = level (psci_non_cpu_pd_nodes s m)"
  "lock_initialised (limits_spec s L i m) = lock_initialised (psci_non_cpu_pd_nodes s m)"
  "pd_state (limits_spec s L i m) = pd_state (psci_non_cpu_pd_nodes s m)"
  by (simp_all add: limits_spec_def)

lemma get_parents_ok:
  assumes wf: "tree_wf L M N s" and i: "i < N"
    and par: "\<And>m. parent_node (nd m) = parent_node (psci_non_cpu_pd_nodes s m)"
  shows "psci_get_parent_pwr_domain_nodes (s\<lparr>psci_non_cpu_pd_nodes := nd\<rparr>) i L
           = Inr (map (\<lambda>k. nat (ancestor s i k)) [0 ..< L])"
proof -
  let ?p = "cpu_parent_node (psci_cpu_pd_nodes s i)"
  have eq: "\<And>k. nth_parent nd ?p k = ancestor s i k"
    unfolding ancestor_def by (rule nth_parent_cong) (rule par)
  have "\<forall>k<L. 0 \<le> nth_parent nd ?p k"
    unfolding eq using tree_wf_ancestor [OF wf i] by blast
  from walk_parents_ok [OF this] show ?thesis
    by (simp add: psci_get_parent_pwr_domain_nodes_def eq)
qed

lemma ancestors_distinct:
  assumes wf: "tree_wf L M N s" and i: "i < N"
  shows "distinct (map (\<lambda>k. nat (ancestor s i k)) [0 ..< L])"
proof -
  have "inj_on (\<lambda>k. nat (ancestor s i k)) (set [0 ..< L])"
  proof (rule inj_onI)
    fix k k' assume k: "k \<in> set [0 ..< L]" "k' \<in> set [0 ..< L]"
      and e: "nat (ancestor s i k) = nat (ancestor s i k')"
    have kL: "k < L" "k' < L" using k by simp_all
    have "ancestor s i k = ancestor s i k'"
      using e tree_wf_ancestor [OF wf i kL(1)] tree_wf_ancestor [OF wf i kL(2)] by linarith
    then show "k = k'" by (rule tree_wf_ancestor_level_unique [OF wf i i kL])
  qed
  then show ?thesis by (simp add: distinct_map)
qed

lemma limits_loop_ok:
  assumes wf: "tree_wf (PLAT_MAX_PWR_LVL cfg) M N s"
  shows "i \<le> N \<Longrightarrow>
     limits_loop cfg [i ..< N]
        (nodes_idx_after s (PLAT_MAX_PWR_LVL cfg) i,
         s\<lparr>psci_non_cpu_pd_nodes := limits_spec s (PLAT_MAX_PWR_LVL cfg) i\<rparr>)
     = Inr (nodes_idx_after s (PLAT_MAX_PWR_LVL cfg) N,
            s\<lparr>psci_non_cpu_pd_nodes := limits_spec s (PLAT_MAX_PWR_LVL cfg) N\<rparr>)"
proof (induction "N - i" arbitrary: i)
  case 0
  then show ?case by simp
next
  case (Suc x)
  let ?L = "PLAT_MAX_PWR_LVL cfg"
  let ?temp = "map (\<lambda>k. nat (ancestor s i k)) [0 ..< ?L]"
  let ?si = "s\<lparr>psci_non_cpu_pd_nodes := limits_spec s ?L i\<rparr>"
  have i: "i < N" using Suc.hyps(2) by simp
  have upt: "[i ..< N] = i # [Suc i ..< N]" using i by (simp add: upt_conv_Cons)
  have gp: "psci_get_parent_pwr_domain_nodes ?si i ?L = Inr ?temp"
    by (rule get_parents_ok [OF wf i]) simp
  have len: "?L \<le> length ?temp" "length (nodes_idx_after s ?L i) = length ?temp"
    by (simp_all add: nodes_idx_after_def)
  have la: "limits_after i ?temp (nodes_idx_after s ?L i) ?L (limits_spec s ?L i) = limits_spec s ?L (Suc i)"
    unfolding nodes_idx_after_def by (rule ext) (rule limits_after_spec [OF wf i])
  have fold: "fold (limits_step i ?temp) (rev [0 ..< ?L]) (nodes_idx_after s ?L i, ?si)
        = (nodes_idx_after s ?L (Suc i), s\<lparr>psci_non_cpu_pd_nodes := limits_spec s ?L (Suc i)\<rparr>)"
    unfolding fold_limits_step [OF ancestors_distinct [OF wf i] len]
    using la by (simp add: nodes_idx_after_def)
  have IH: "limits_loop cfg [Suc i ..< N]
        (nodes_idx_after s ?L (Suc i), s\<lparr>psci_non_cpu_pd_nodes := limits_spec s ?L (Suc i)\<rparr>)
     = Inr (nodes_idx_after s ?L N, s\<lparr>psci_non_cpu_pd_nodes := limits_spec s ?L N\<rparr>)"
    using Suc.hyps(1) [of "Suc i"] Suc.hyps(2) i by simp
  show ?case
    unfolding upt by (simp only: limits_loop.simps gp sum.case fold IH)
qed

lemma psci_update_pwrlvl_limits_ok:
  assumes wf: "tree_wf (PLAT_MAX_PWR_LVL cfg) M (PLATFORM_CORE_COUNT cfg) s"
  shows "psci_update_pwrlvl_limits cfg s =
           Inr (s\<lparr>psci_non_cpu_pd_nodes :=
                    limits_spec s (PLAT_MAX_PWR_LVL cfg) (PLATFORM_CORE_COUNT cfg)\<rparr>)"
  using limits_loop_ok [OF wf, of 0]
  by (simp add: psci_update_pwrlvl_limits_def nodes_idx_after_def limits_spec_0)

lemma valid_desc_entries:
  assumes "valid_desc cfg d"
  shows "0 < snd (lvl_entries d (PLAT_MAX_PWR_LVL cfg))"
proof (rule ccontr)
  assume "\<not> 0 < snd (lvl_entries d (PLAT_MAX_PWR_LVL cfg))"
  then have "leaf_count d (PLAT_MAX_PWR_LVL cfg) = 0"
    by (simp add: leaf_count_def lvl_entries_Suc_snd del: lvl_entries.simps)
  with assms show False by (auto simp add: valid_desc_def)
qed

lemma populate_valid:
  assumes v: "valid_desc cfg d"
  shows "populate_power_domain_tree cfg d (int (PLAT_MAX_PWR_LVL cfg)) s =
           Inr (tree_upto d (PLAT_MAX_PWR_LVL cfg) (Suc (PLAT_MAX_PWR_LVL cfg)) s)"
proof -
  let ?L = "PLAT_MAX_PWR_LVL cfg"
  let ?v0 = "\<lparr>j_var = 0, node_index = 0, parent_node_index = 0, num_nodes_at_next_lvl = 0\<rparr>"
  have bound: "int (non_cpu_count d ?L) \<le> assert_bound cfg"
    using v by (simp add: valid_desc_def)
  have "\<exists>vf. populate_levels cfg d (int ?L) (snd (lvl_entries d (?L - ?L))) (?v0, tree_upto d ?L (?L - ?L) s)
              = Inr (vf, tree_upto d ?L (Suc ?L) s) \<and>
            (0 < snd (lvl_entries d ?L) \<longrightarrow> j_var vf = leaf_count d ?L)"
    by (rule populate_levels_ok [OF bound]) simp_all
  then obtain vf where vf: "populate_levels cfg d (int ?L) 1 (?v0, s) = Inr (vf, tree_upto d ?L (Suc ?L) s)"
    "j_var vf = leaf_count d ?L"
    using valid_desc_entries [OF v] by (auto simp del: populate_levels.simps tree_upto.simps(2))
  have "j_var vf = PLATFORM_CORE_COUNT cfg" using vf v by (simp add: valid_desc_def)
  then show ?thesis
    unfolding populate_power_domain_tree_def vf(1) by simp
qed

lemma valid_tree_wf:
  assumes v: "valid_desc cfg d"
  shows "tree_wf (PLAT_MAX_PWR_LVL cfg) (non_cpu_count d (PLAT_MAX_PWR_LVL cfg)) (PLATFORM_CORE_COUNT cfg)
           (tree_upto d (PLAT_MAX_PWR_LVL cfg) (Suc (PLAT_MAX_PWR_LVL cfg)) s)"
  using tree_built_wf [of "PLAT_MAX_PWR_LVL cfg" d s] v by (simp add: valid_desc_def)

lemma covered_convex:
  assumes wf: "tree_wf L M N s" and i: "i \<le> N"
    and c: "c1 \<in> covered s L i m" "c2 \<in> covered s L i m" "c1 \<le> c" "c \<le> c2"
  shows "c \<in> covered s L i m"
proof -
  have lt: "c1 < N" "c2 < N" "c < N" "c < i" "c2 < i"
    using c i covered_less [of c1 s L i m] covered_less [of c2 s L i m] by simp_all
  obtain k where k: "k < L" "ancestor s c1 k = int m" using c(1) by (auto simp: covered_def covers_def)
  obtain k' where k': "k' < L" "ancestor s c2 k' = int m" using c(2) by (auto simp: covered_def covers_def)
  have kk: "k = k'"
    using tree_wf_ancestor_level_unique [OF wf lt(1) lt(2) k(1) k'(1)] k k' by simp
  have "ancestor s c1 k \<le> ancestor s c k" by (rule tree_wf_ancestor_mono [OF wf c(3) lt(3) k(1)])
  moreover have "ancestor s c k \<le> ancestor s c2 k" by (rule tree_wf_ancestor_mono [OF wf c(4) lt(2) k(1)])
  ultimately have "ancestor s c k = int m" using k k' kk by simp
  then show ?thesis using k(1) lt by (auto simp: covered_def covers_def)
qed

lemma convex_nat_interval:
  fixes C :: "nat set"
  assumes fin: "finite C" and ne: "C \<noteq> {}"
    and conv: "\<And>a b x. a \<in> C \<Longrightarrow> b \<in> C \<Longrightarrow> a \<le> x \<Longrightarrow> x \<le> b \<Longrightarrow> x \<in> C"
  shows "C = {Min C ..< Min C + card C}"
proof -
  have C: "C = {Min C .. Max C}"
  proof (rule set_eqI)
    fix x
    show "x \<in> C \<longleftrightarrow> x \<in> {Min C .. Max C}"
      using conv [OF Min_in [OF fin ne] Max_in [OF fin ne], of x] Min_le [OF fin, of x] Max_ge [OF fin, of x]
      by auto
  qed
  have le: "Min C \<le> Max C" using fin ne by simp
  have "card C = card {Min C .. Max C}" using C by simp
  then have "card C = Suc (Max C) - Min C" by simp
  then have "{Min C ..< Min C + card C} = {Min C .. Max C}" using le by auto
  with C show ?thesis by simp
qed

lemma limits_spec_range:
  assumes wf: "tree_wf L M N s"
    and z: "cpu_start_idx (psci_non_cpu_pd_nodes s m) = 0" "ncpus (psci_non_cpu_pd_nodes s m) = 0"
  shows "{cpu_start_idx (limits_spec s L N m) ..< cpu_start_idx (limits_spec s L N m) + ncpus (limits_spec s L N m)}
           = covered s L N m"
proof (cases "covered s L N m = {}")
  case True
  then show ?thesis using z by (simp add: limits_spec_def)
next
  case False
  let ?C = "covered s L N m"
  have iv: "?C = {Min ?C ..< Min ?C + card ?C}"
    by (rule convex_nat_interval [OF covered_finite False]) (rule covered_convex [OF wf order_refl])
  have st: "cpu_start_idx (limits_spec s L N m) = Min ?C"
  proof (cases "m = 0 \<and> 0 \<in> covered s L N 0")
    case True
    then have "Min ?C = 0" using Min_le [OF covered_finite, of 0 s L N m] by simp
    then show ?thesis using True z by (simp add: limits_spec_def)
  next
    case no: False
    then show ?thesis using False by (auto simp add: limits_spec_def)
  qed
  have "ncpus (limits_spec s L N m) = card ?C" using z by (simp add: limits_spec_def)
  with st iv show ?thesis by simp
qed

lemma example_valid: "valid_desc example_config example_desc"
  by code_simp

lemma bss_limits_zeroed: "limits_zeroed bss_globals"
  by (simp add: limits_zeroed_def bss_globals_def zero_node_def)

lemma ancestor_cong:
  assumes "\<And>m. parent_node (psci_non_cpu_pd_nodes s' m) = parent_node (psci_non_cpu_pd_nodes s m)"
    and "cpu_parent_node (psci_cpu_pd_nodes s' c) = cpu_parent_node (psci_cpu_pd_nodes s c)"
  shows "ancestor s' c k = ancestor s c k"
  unfolding ancestor_def assms(2) by (rule nth_parent_cong) (rule assms(1))

lemma covers_cong:
  assumes "\<And>m. parent_node (psci_non_cpu_pd_nodes s' m) = parent_node (psci_non_cpu_pd_nodes s m)"
    and "cpu_parent_node (psci_cpu_pd_nodes s' c) = cpu_parent_node (psci_cpu_pd_nodes s c)"
  shows "covers s' L c m = covers s L c m"
  unfolding covers_def ancestor_cong [of s' s, OF assms] ..

lemma built_limits_range:
  assumes v: "valid_desc cfg d" and z: "limits_zeroed s0"
  shows "cpu_range
           ((tree_upto d (PLAT_MAX_PWR_LVL cfg) (Suc (PLAT_MAX_PWR_LVL cfg)) s0)
              \<lparr>psci_non_cpu_pd_nodes :=
                 limits_spec (tree_upto d (PLAT_MAX_PWR_LVL cfg) (Suc (PLAT_MAX_PWR_LVL cfg)) s0)
                   (PLAT_MAX_PWR_LVL cfg) (PLATFORM_CORE_COUNT cfg)\<rparr>) m
         = covered (tree_upto d (PLAT_MAX_PWR_LVL cfg) (Suc (PLAT_MAX_PWR_LVL cfg)) s0)
             (PLAT_MAX_PWR_LVL cfg) (PLATFORM_CORE_COUNT cfg) m"
proof -
  let ?s1 = "tree_upto d (PLAT_MAX_PWR_LVL cfg) (Suc (PLAT_MAX_PWR_LVL cfg)) s0"
  have z1: "cpu_start_idx (psci_non_cpu_pd_nodes ?s1 m) = 0" "ncpus (psci_non_cpu_pd_nodes ?s1 m) = 0"
    using z unfolding tree_upto_nodes_frame limits_zeroed_def by simp_all
  show ?thesis
    unfolding cpu_range_def using limits_spec_range [OF valid_tree_wf [OF v] z1] by simp
qed

lemma covered_elim:
  assumes wf: "tree_wf L M N s" and c: "c \<in> covered s L N m"
  obtains k where "k < L" "c < N" "ancestor s c k = int m" "m < M"
    "level (psci_non_cpu_pd_nodes s m) = int k + 1"
proof -
  from c obtain k where k: "k < L" "c < N" "ancestor s c k = int m"
    by (auto simp: covered_def covers_def)
  from tree_wf_ancestor [OF wf k(2) k(1)] k(3)
  have "m < M" "level (psci_non_cpu_pd_nodes s m) = int k + 1" by simp_all
  with k show ?thesis by (rule that)
qed

lemma covered_intro:
  "k < L \<Longrightarrow> c < N \<Longrightarrow> ancestor s c k = int m \<Longrightarrow> c \<in> covered s L N m"
  by (auto simp: covered_def covers_def)

lemma tree_wf_sibling_level:
  assumes wf: "tree_wf L M N s" and m: "m < M" "m' < M"
    and p: "parent_node (psci_non_cpu_pd_nodes s m) = parent_node (psci_non_cpu_pd_nodes s m')"
  shows "level (psci_non_cpu_pd_nodes s m) = level (psci_non_cpu_pd_nodes s m')"
proof -
  let ?nd = "psci_non_cpu_pd_nodes s"
  have a: "\<And>x. x < M \<Longrightarrow> level (?nd x) \<le> int L"
    and b: "\<And>x. x < M \<Longrightarrow> level (?nd x) < int L \<Longrightarrow>
              0 \<le> parent_node (?nd x) \<and> level (?nd (nat (parent_node (?nd x)))) = level (?nd x) + 1"
    and c: "\<And>x. x < M \<Longrightarrow> level (?nd x) = int L \<Longrightarrow> parent_node (?nd x) = - 1"
    using wf unfolding tree_wf_def by blast+
  show ?thesis
  proof (cases "level (?nd m) < int L")
    case True
    then have pm: "0 \<le> parent_node (?nd m)" "level (?nd (nat (parent_node (?nd m)))) = level (?nd m) + 1"
      using b [OF m(1)] by simp_all
    have "level (?nd m') < int L"
    proof (rule ccontr)
      assume "\<not> level (?nd m') < int L"
      then have "level (?nd m') = int L" using a [OF m(2)] by simp
      then show False using c [OF m(2)] pm p by simp
    qed
    then show ?thesis using b [OF m(2)] pm p by simp
  next
    case False
    then have lm: "level (?nd m) = int L" using a [OF m(1)] by simp
    have "\<not> level (?nd m') < int L"
    proof
      assume "level (?nd m') < int L"
      then show False using b [OF m(2)] c [OF m(1) lm] p by simp
    qed
    then show ?thesis using lm a [OF m(2)] by simp
  qed
qed

lemma covered_same_level_disjoint:
  assumes wf: "tree_wf L M N s"
    and lv: "level (psci_non_cpu_pd_nodes s m) = level (psci_non_cpu_pd_nodes s m')"
    and c: "c \<in> covered s L N m" "c \<in> covered s L N m'"
  shows "m = m'"
proof -
  from covered_elim [OF wf c(1)] obtain k where k: "ancestor s c k = int m"
    "level (psci_non_cpu_pd_nodes s m) = int k + 1" by blast
  from covered_elim [OF wf c(2)] obtain k' where k': "ancestor s c k' = int m'"
    "level (psci_non_cpu_pd_nodes s m') = int k' + 1" by blast
  from k k' lv have "k = k'" by simp
  with k k' show ?thesis by simp
qed

lemma covered_same_level_ordered:
  assumes wf: "tree_wf L M N s"
    and lv: "level (psci_non_cpu_pd_nodes s m) = level (psci_non_cpu_pd_nodes s m')"
    and c: "c \<in> covered s L N m" "c' \<in> covered s L N m'" and lt: "m < m'"
  shows "c < c'"
proof (rule ccontr)
  assume "\<not> c < c'"
  then have le: "c' \<le> c" by simp
  from covered_elim [OF wf c(1)] obtain k where k: "k < L" "c < N" "ancestor s c k = int m"
    "level (psci_non_cpu_pd_nodes s m) = int k + 1" by blast
  from covered_elim [OF wf c(2)] obtain k' where k': "ancestor s c' k' = int m'"
    "level (psci_non_cpu_pd_nodes s m') = int k' + 1" by blast
  from k k' lv have kk: "k = k'" by simp
  have "ancestor s c' k \<le> ancestor s c k" by (rule tree_wf_ancestor_mono [OF wf le k(2) k(1)])
  with k k' kk lt show False by simp
qed

lemma covered_parent:
  assumes wf: "tree_wf L M N s" and c: "c \<in> covered s L N m"
    and p: "0 \<le> parent_node (psci_non_cpu_pd_nodes s m)"
  shows "c \<in> covered s L N (nat (parent_node (psci_non_cpu_pd_nodes s m)))"
proof -
  let ?nd = "psci_non_cpu_pd_nodes s"
  from covered_elim [OF wf c] obtain k where k: "k < L" "c < N" "ancestor s c k = int m" "m < M"
    "level (?nd m) = int k + 1" by blast
  have "level (?nd m) \<noteq> int L"
  proof
    assume "level (?nd m) = int L"
    then have "parent_node (?nd m) = - 1" using wf k(4) unfolding tree_wf_def by blast
    with p show False by simp
  qed
  then have k1: "Suc k < L" using k by simp
  have "ancestor s c (Suc k) = parent_node (?nd m)" unfolding ancestor_Suc k(3) by simp
  then have "ancestor s c (Suc k) = int (nat (parent_node (?nd m)))" using p by simp
  then show ?thesis by (rule covered_intro [OF k1 k(2)])
qed

lemma covered_siblings_contiguous:
  assumes wf: "tree_wf L M N s" and m: "m < M" "m' < M"
    and p: "parent_node (psci_non_cpu_pd_nodes s m) = parent_node (psci_non_cpu_pd_nodes s m')"
    and c: "c \<in> covered s L N m" "c' \<in> covered s L N m'" and x: "c \<le> x" "x \<le> c'"
  shows "\<exists>m''<M. parent_node (psci_non_cpu_pd_nodes s m'') = parent_node (psci_non_cpu_pd_nodes s m) \<and>
           x \<in> covered s L N m''"
proof -
  let ?nd = "psci_non_cpu_pd_nodes s"
  have lv: "level (?nd m) = level (?nd m')" by (rule tree_wf_sibling_level [OF wf m p])
  from covered_elim [OF wf c(1)] obtain k where k: "k < L" "c < N" "ancestor s c k = int m"
    "level (?nd m) = int k + 1" by blast
  from covered_elim [OF wf c(2)] obtain k' where k': "c' < N" "ancestor s c' k' = int m'"
    "level (?nd m') = int k' + 1" by blast
  from k k' lv have kk: "k' = k" by simp
  have xN: "x < N" using x k' by simp
  let ?m = "nat (ancestor s x k)"
  have ax: "0 \<le> ancestor s x k" "ancestor s x k < int M" "level (?nd ?m) = int k + 1"
    using tree_wf_ancestor [OF wf xN k(1)] by simp_all
  have mM: "?m < M" using ax by linarith
  have cov: "x \<in> covered s L N ?m"
    by (rule covered_intro [OF k(1) xN]) (use ax in simp)
  have par: "parent_node (?nd ?m) = parent_node (?nd m)"
  proof (cases "Suc k < L")
    case True
    have 1: "ancestor s c (Suc k) \<le> ancestor s x (Suc k)"
      by (rule tree_wf_ancestor_mono [OF wf x(1) xN True])
    have 2: "ancestor s x (Suc k) \<le> ancestor s c' (Suc k)"
      by (rule tree_wf_ancestor_mono [OF wf x(2) k'(1) True])
    have 3: "ancestor s c (Suc k) = parent_node (?nd m)" unfolding ancestor_Suc k(3) by simp
    have 4: "ancestor s c' (Suc k) = parent_node (?nd m')" unfolding ancestor_Suc using k'(2) kk by simp
    have "ancestor s x (Suc k) = parent_node (?nd m)" using 1 2 3 4 p by simp
    then show ?thesis unfolding ancestor_Suc .
  next
    case False
    then have "int k + 1 = int L" using k(1) by simp
    then have "level (?nd ?m) = int L" "level (?nd m) = int L" using ax k by simp_all
    then have "parent_node (?nd ?m) = - 1" "parent_node (?nd m) = - 1"
      using wf mM m(1) unfolding tree_wf_def by blast+
    then show ?thesis by simp
  qed
  from mM par cov show ?thesis by blast
qed

lemma fold_pd_state:
  "fold (\<lambda>n nodes. nodes(n := (nodes n)\<lparr>pd_state := st\<rparr>)) ps nd m =
     (if m \<in> set ps then (nd m)\<lparr>pd_state := st\<rparr> else nd m)"
  by (induction ps arbitrary: nd) auto

lemma walk_parents_wf:
  assumes wf: "tree_wf L M N s" and i: "i < N"
    and par: "\<And>m. parent_node (nd m) = parent_node (psci_non_cpu_pd_nodes s m)"
  shows "walk_parents nd (cpu_parent_node (psci_cpu_pd_nodes s i)) L
           = Inr (map (\<lambda>k. nat (ancestor s i k)) [0 ..< L])"
  using get_parents_ok [OF wf i par] by (simp add: psci_get_parent_pwr_domain_nodes_def)

lemma psci_setup_ok:
  assumes v: "valid_desc cfg (platform_get_power_domain_tree_desc plat)"
    and me: "platform_my_core_pos plat < PLATFORM_CORE_COUNT cfg"
  shows "psci_setup cfg plat s0 =
           (case platform_setup_pm plat of
              None \<Rightarrow> Inl Assert_plat_pm_ops
            | Some ops \<Rightarrow>
                Inr (0, (booted_tree cfg plat s0)
                          \<lparr>psci_plat_pm_ops := Some ops, psci_caps := psci_setup_caps cfg ops\<rparr>))"
proof -
  let ?L = "PLAT_MAX_PWR_LVL cfg" and ?N = "PLATFORM_CORE_COUNT cfg"
  let ?d = "platform_get_power_domain_tree_desc plat"
  let ?s = "s0\<lparr>psci_plat_pm_ops := None\<rparr>"
  let ?s1 = "tree_upto ?d ?L (Suc ?L) ?s"
  have wf: "tree_wf ?L (non_cpu_count ?d ?L) ?N ?s1" by (rule valid_tree_wf [OF v])
  have 1: "populate_power_domain_tree cfg ?d (int ?L) ?s = Inr ?s1" by (rule populate_valid [OF v])
  have 2: "psci_update_pwrlvl_limits cfg ?s1 = Inr (?s1\<lparr>psci_non_cpu_pd_nodes := limits_spec ?s1 ?L ?N\<rparr>)"
    by (rule psci_update_pwrlvl_limits_ok [OF wf])
  have 3: "walk_parents (limits_spec ?s1 ?L ?N)
             (cpu_parent_node (psci_cpu_pd_nodes ?s1 (platform_my_core_pos plat))) ?L
           = Inr (map (\<lambda>k. nat (ancestor ?s1 (platform_my_core_pos plat) k)) [0 ..< ?L])"
    by (rule walk_parents_wf [OF wf me]) simp
  show ?thesis
    unfolding psci_setup_def Let_def 1 2 sum.case
    by (simp add: psci_do_state_coordination_def psci_get_parent_pwr_domain_nodes_def 3
          booted_tree_def built_tree_def Let_def split: option.splits
          del: tree_upto.simps)
qed

lemma example_unat:
  "unat (example_desc 0) = Suc 0"
  "unat (example_desc (Suc 0)) = Suc (Suc 0)"
  "unat (example_desc (Suc (Suc 0))) = Suc (Suc 0)"
  "unat (example_desc (Suc (Suc (Suc 0)))) = Suc (Suc 0)"
  by (simp_all add: example_desc_def)

lemma example_tree_Suc:
  "tree_upto example_desc (Suc (Suc 0)) (Suc (Suc (Suc 0))) s =
     init_children (Suc (Suc 0)) (Suc (Suc 0)) (int (Suc (Suc (Suc 0))) - 1) 0
       (init_children 0 (Suc (Suc 0)) (int (Suc (Suc 0)) - 1) 0
          (init_children (Suc 0) (Suc (Suc 0)) (int (Suc 0) - 1) 1
             (init_children 0 (Suc 0) (int 0 - 1) 2 s)))"
  by (simp add: example_unat)

lemma example_tree:
  "tree_upto example_desc 2 3 s =
     init_children 2 2 2 0 (init_children 0 2 1 0 (init_children 1 2 0 1 (init_children 0 1 (- 1) 2 s)))"
  using example_tree_Suc [of s] by (simp add: numeral_2_eq_2 numeral_3_eq_3)

lemma example_tree_nodes:
  "psci_non_cpu_pd_nodes (tree_upto example_desc 2 3 s) m =
     (if m = 0 then (psci_non_cpu_pd_nodes s m)\<lparr>level := 2, parent_node := - 1, lock_initialised := True\<rparr>
      else if m < 3 then (psci_non_cpu_pd_nodes s m)\<lparr>level := 1, parent_node := 0, lock_initialised := True\<rparr>
      else psci_non_cpu_pd_nodes s m)"
  unfolding example_tree by (simp add: init_children_nodes)

lemma example_tree_cpus:
  "psci_cpu_pd_nodes (tree_upto example_desc 2 3 s) c =
     (if c < 2 then (psci_cpu_pd_nodes s c)\<lparr>cpu_parent_node := 1, mpidr := - 1\<rparr>
      else if c < 4 then (psci_cpu_pd_nodes s c)\<lparr>cpu_parent_node := 2, mpidr := - 1\<rparr>
      else psci_cpu_pd_nodes s c)"
  unfolding example_tree by (simp add: init_children_cpus)

lemma example_tree_cpu_data:
  "cpu_data (tree_upto example_desc 2 3 s) c =
     (if c < 4 then (cpu_data s c)\<lparr>psci_state := PSCI_STATE_OFF, power_state := PSCI_INVALID_DATA\<rparr>
      else cpu_data s c)"
  unfolding example_tree by (simp add: init_children_cpu_data)

lemma example_ancestor:
  "ancestor (tree_upto example_desc 2 3 s) c 0 = (if c < 2 then 1 else if c < 4 then 2 else cpu_parent_node (psci_cpu_pd_nodes s c))"
  "c < 4 \<Longrightarrow> ancestor (tree_upto example_desc 2 3 s) c (Suc 0) = 0"
  by (simp_all add: ancestor_def example_tree_nodes example_tree_cpus del: tree_upto.simps)

lemma example_covers:
  "c < 4 \<Longrightarrow> covers (tree_upto example_desc 2 3 s) 2 c m \<longleftrightarrow>
     m = 0 \<or> (m = 1 \<and> c < 2) \<or> (m = 2 \<and> 2 \<le> c)"
proof -
  assume c: "c < 4"
  have "{0..<2::nat} = {0, Suc 0}" by auto
  then show ?thesis
    unfolding covers_def using c by (auto simp add: example_ancestor simp del: tree_upto.simps)
qed

lemma example_covered:
  "covered (tree_upto example_desc 2 3 s) 2 4 m =
     (if m = 0 then {0, 1, 2, 3} else if m = 1 then {0, 1} else if m = 2 then {2, 3} else {})"
proof -
  have "covered (tree_upto example_desc 2 3 s) 2 4 m =
          {c. c < 4 \<and> (m = 0 \<or> (m = 1 \<and> c < 2) \<or> (m = 2 \<and> 2 \<le> c))}"
    unfolding covered_def using example_covers [of _ s m] by auto
  also have "\<dots> = (if m = 0 then {0, 1, 2, 3} else if m = 1 then {0, 1} else if m = 2 then {2, 3} else {})"
    by auto
  finally show ?thesis .
qed

lemma example_limits:
  assumes "limits_zeroed s"
  shows "cpu_start_idx (limits_spec (tree_upto example_desc 2 3 s) 2 4 m) = (if m = 2 then 2 else 0)"
    and "ncpus (limits_spec (tree_upto example_desc 2 3 s) 2 4 m) = (if m = 0 then 4 else if m = 1 \<or> m = 2 then 2 else 0)"
proof -
  have z: "cpu_start_idx (psci_non_cpu_pd_nodes (tree_upto example_desc 2 3 s) m) = 0"
    "ncpus (psci_non_cpu_pd_nodes (tree_upto example_desc 2 3 s) m) = 0"
    using assms unfolding tree_upto_nodes_frame limits_zeroed_def by simp_all
  show "cpu_start_idx (limits_spec (tree_upto example_desc 2 3 s) 2 4 m) = (if m = 2 then 2 else 0)"
    unfolding limits_spec_def example_covered using z by simp
  show "ncpus (limits_spec (tree_upto example_desc 2 3 s) 2 4 m) = (if m = 0 then 4 else if m = 1 \<or> m = 2 then 2 else 0)"
    unfolding limits_spec_def example_covered using z by simp
qed

lemma example_platform_valid:
  "valid_desc example_config (platform_get_power_domain_tree_desc (example_platform me))"
  by (simp add: example_platform_def example_valid)

lemma example_chain:
  "me < 4 \<Longrightarrow> map (\<lambda>k. nat (ancestor (tree_upto example_desc 2 3 s) me k)) [0 ..< 2]
     = [if me < 2 then 1 else 2, 0]"
proof -
  assume me: "me < 4"
  have "[0 ..< 2] = [0, Suc 0]" by (simp add: numeral_2_eq_2)
  then show ?thesis using me by (simp add: example_ancestor del: tree_upto.simps)
qed

lemma example_booted:
  assumes me: "me < 4"
  shows "psci_non_cpu_pd_nodes (booted_tree example_config (example_platform me) s0) m =
           (if m = 0 \<or> m = (if me < 2 then 1 else 2)
            then (limits_spec (tree_upto example_desc 2 3 (s0\<lparr>psci_plat_pm_ops := None\<rparr>)) 2 4 m)
                   \<lparr>pd_state := PSCI_STATE_ON\<rparr>
            else limits_spec (tree_upto example_desc 2 3 (s0\<lparr>psci_plat_pm_ops := None\<rparr>)) 2 4 m)"
    and "psci_state (cpu_data (booted_tree example_config (example_platform me) s0) c) =
           (if c = me then PSCI_STATE_ON
            else if c < 4 then PSCI_STATE_OFF else psci_state (cpu_data s0 c))"
    and "cpu_parent_node (psci_cpu_pd_nodes (booted_tree example_config (example_platform me) s0) c) =
           (if c < 2 then 1 else if c < 4 then 2 else cpu_parent_node (psci_cpu_pd_nodes s0 c))"
proof -
  have cfg: "PLAT_MAX_PWR_LVL example_config = 2" "PLATFORM_CORE_COUNT example_config = 4"
    by (simp_all add: example_config_def)
  have plat: "platform_get_power_domain_tree_desc (example_platform me) = example_desc"
    "platform_my_core_pos (example_platform me) = me"
    by (simp_all add: example_platform_def)
  have bt: "built_tree example_config (example_platform me) s0
              = tree_upto example_desc 2 3 (s0\<lparr>psci_plat_pm_ops := None\<rparr>)"
    unfolding built_tree_def cfg plat by (simp del: tree_upto.simps)
  show "psci_non_cpu_pd_nodes (booted_tree example_config (example_platform me) s0) m =
           (if m = 0 \<or> m = (if me < 2 then 1 else 2)
            then (limits_spec (tree_upto example_desc 2 3 (s0\<lparr>psci_plat_pm_ops := None\<rparr>)) 2 4 m)
                   \<lparr>pd_state := PSCI_STATE_ON\<rparr>
            else limits_spec (tree_upto example_desc 2 3 (s0\<lparr>psci_plat_pm_ops := None\<rparr>)) 2 4 m)"
    unfolding booted_tree_def Let_def bt cfg plat
    by (simp add: fold_pd_state example_chain [OF me] del: tree_upto.simps)
  show "psci_state (cpu_data (booted_tree example_config (example_platform me) s0) c) =
           (if c = me then PSCI_STATE_ON
            else if c < 4 then PSCI_STATE_OFF else psci_state (cpu_data s0 c))"
    unfolding booted_tree_def Let_def bt cfg plat
    by (simp add: example_tree_cpu_data del: tree_upto.simps)
  show "cpu_parent_node (psci_cpu_pd_nodes (booted_tree example_config (example_platform me) s0) c) =
           (if c < 2 then 1 else if c < 4 then 2 else cpu_parent_node (psci_cpu_pd_nodes s0 c))"
    unfolding booted_tree_def Let_def bt cfg plat
    by (simp add: example_tree_cpus del: tree_upto.simps)
qed

lemma example_cfg:
  "PLAT_MAX_PWR_LVL example_config = 2" "PLATFORM_CORE_COUNT example_config = 4"
  by (simp_all add: example_config_def)

lemma example_non_cpu_count: "non_cpu_count example_desc 2 = 3"
  by code_simp

lemma example_populate:
  "populate_power_domain_tree example_config example_desc 2 s = Inr (tree_upto example_desc 2 3 s)"
  using populate_valid [OF example_valid, of s] by (simp add: example_cfg del: tree_upto.simps)

lemma example_update:
  "psci_update_pwrlvl_limits example_config (tree_upto example_desc 2 3 s) =
     Inr ((tree_upto example_desc 2 3 s)
            \<lparr>psci_non_cpu_pd_nodes := limits_spec (tree_upto example_desc 2 3 s) 2 4\<rparr>)"
  using psci_update_pwrlvl_limits_ok [OF valid_tree_wf [OF example_valid], of s]
  by (simp add: example_cfg del: tree_upto.simps)

lemma valid_cpus_inside:
  assumes v: "valid_desc cfg d" and c: "c < PLATFORM_CORE_COUNT cfg"
  shows "mpidr (psci_cpu_pd_nodes (tree_upto d (PLAT_MAX_PWR_LVL cfg) (Suc (PLAT_MAX_PWR_LVL cfg)) s) c) = - 1"
    and "psci_state (cpu_data (tree_upto d (PLAT_MAX_PWR_LVL cfg) (Suc (PLAT_MAX_PWR_LVL cfg)) s) c) = PSCI_STATE_OFF"
    and "power_state (cpu_data (tree_upto d (PLAT_MAX_PWR_LVL cfg) (Suc (PLAT_MAX_PWR_LVL cfg)) s) c) = PSCI_INVALID_DATA"
    and "cm_ns_context (tree_upto d (PLAT_MAX_PWR_LVL cfg) (Suc (PLAT_MAX_PWR_LVL cfg)) s) c = Some c"
proof -
  have "c < leaf_count d (PLAT_MAX_PWR_LVL cfg)" using v c by (simp add: valid_desc_def)
  from tree_cpus_inside [OF this, of s]
  show "mpidr (psci_cpu_pd_nodes (tree_upto d (PLAT_MAX_PWR_LVL cfg) (Suc (PLAT_MAX_PWR_LVL cfg)) s) c) = - 1"
    and "psci_state (cpu_data (tree_upto d (PLAT_MAX_PWR_LVL cfg) (Suc (PLAT_MAX_PWR_LVL cfg)) s) c) = PSCI_STATE_OFF"
    and "power_state (cpu_data (tree_upto d (PLAT_MAX_PWR_LVL cfg) (Suc (PLAT_MAX_PWR_LVL cfg)) s) c) = PSCI_INVALID_DATA"
    and "cm_ns_context (tree_upto d (PLAT_MAX_PWR_LVL cfg) (Suc (PLAT_MAX_PWR_LVL cfg)) s) c = Some c"
    by blast+
qed

lemma psci_setup_Inr:
  assumes v: "valid_desc cfg (platform_get_power_domain_tree_desc plat)"
    and me: "platform_my_core_pos plat < PLATFORM_CORE_COUNT cfg"
    and run: "psci_setup cfg plat s0 = Inr (r, s')"
  shows "\<exists>ops. platform_setup_pm plat = Some ops \<and> r = 0 \<and>
           s' = (booted_tree cfg plat s0)\<lparr>psci_plat_pm_ops := Some ops, psci_caps := psci_setup_caps cfg ops\<rparr>"
  using run unfolding psci_setup_ok [OF v me] by (auto split: option.splits)

lemma tree_upto_nodes_initialised:
  "i \<le> L \<Longrightarrow> m < fst (lvl_entries d i) + snd (lvl_entries d i) - 1 \<Longrightarrow>
     lock_initialised (psci_non_cpu_pd_nodes (tree_upto d L i s) m)"
proof (induction i)
  case 0
  then show ?case by simp
next
  case (Suc i)
  let ?p = "fst (lvl_entries d i)" and ?n = "snd (lvl_entries d i)"
  have pos: "1 \<le> ?p + ?n" by (rule lvl_entries_sum_pos)
  have iL: "i < L" using Suc.prems by simp
  have t: "tree_upto d L (Suc i) s = alloc_level d (int L - int i) ?n ?p (?p + ?n - 1) (tree_upto d L i s)"
    using iL by (simp split: prod.splits)
  have m: "m < ?p + ?n - 1 + children_sum d ?p ?n"
    using Suc.prems(2) pos by (simp add: lvl_entries_Suc_fst lvl_entries_Suc_snd del: lvl_entries.simps)
  show ?case
  proof (cases "m < ?p + ?n - 1")
    case True
    then show ?thesis unfolding t using Suc.IH iL by (simp add: alloc_level_nodes_outside)
  next
    case False
    then have "?p + ?n - 1 \<le> m" by simp
    then show ?thesis unfolding t using alloc_level_nodes_inside [OF _ _ m, of "int L - int i" "tree_upto d L i s"] iL
      by simp
  qed
qed

lemma tree_nodes_initialised:
  "m < non_cpu_count d L \<Longrightarrow> lock_initialised (psci_non_cpu_pd_nodes (tree_upto d L (Suc L) s) m)"
  unfolding tree_upto_nodes_last non_cpu_count_eq
  by (rule tree_upto_nodes_initialised) simp_all

lemma cap_set_or_same: "cap_set (x OR c) c"
  by (simp add: cap_set_def bit_eq_iff bit_and_iff bit_or_iff)

lemma cap_set_or_other: "c' AND c = 0 \<or> c AND c' = 0 \<Longrightarrow> cap_set (x OR c') c = cap_set x c"
proof -
  assume "c' AND c = 0 \<or> c AND c' = 0"
  then have "c' AND c = 0" by (auto simp: and.commute)
  then have "(x OR c') AND c = x AND c"
    by (simp add: bit.conj_disj_distrib2)
  then show ?thesis by (simp add: cap_set_def)
qed

lemma cap_set_disjoint: "x AND c = 0 \<Longrightarrow> c \<noteq> 0 \<Longrightarrow> \<not> cap_set x c"
  by (auto simp: cap_set_def)

lemma cap_set_self: "cap_set c c"
  by (simp add: cap_set_def)

lemma psci_setup_caps_sets:
  assumes "caps_distinct cfg"
  shows "cap_set (psci_setup_caps cfg ops) (PSCI_GENERIC_CAP cfg)"
    and "cap_set (psci_setup_caps cfg ops) (CAP_PSCI_CPU_OFF cfg) \<longleftrightarrow> pwr_domain_off ops \<noteq> 0"
    and "cap_set (psci_setup_caps cfg ops) (CAP_PSCI_CPU_ON_AARCH64 cfg) \<longleftrightarrow>
           pwr_domain_on ops \<noteq> 0 \<and> pwr_domain_on_finish ops \<noteq> 0"
    and "cap_set (psci_setup_caps cfg ops) (CAP_PSCI_CPU_SUSPEND_AARCH64 cfg) \<longleftrightarrow>
           pwr_domain_suspend ops \<noteq> 0 \<and> pwr_domain_suspend_finish ops \<noteq> 0"
    and "cap_set (psci_setup_caps cfg ops) (CAP_PSCI_SYSTEM_OFF cfg) \<longleftrightarrow> system_off ops \<noteq> 0"
    and "cap_set (psci_setup_caps cfg ops) (CAP_PSCI_SYSTEM_RESET cfg) \<longleftrightarrow> system_reset ops \<noteq> 0"
  using assms
  by (simp_all add: caps_distinct_def psci_setup_caps_def Let_def cap_set_or_same cap_set_or_other
        cap_set_disjoint cap_set_self)

lemma psci_setup_caps_result:
  assumes "psci_setup cfg plat s0 = Inr (r, s')"
  shows "\<exists>ops. platform_setup_pm plat = Some ops \<and> psci_plat_pm_ops s' = Some ops \<and>
           psci_caps s' = psci_setup_caps cfg ops"
  using assms by (auto simp: psci_setup_def Let_def split: sum.splits option.splits)

lemma example_caps_distinct: "caps_distinct example_config"
  by (simp add: caps_distinct_def example_config_def)



section \<open>Verified properties\<close>

text \<open>
  Claim C7. For a slot above the cpu level \<^verbatim>\<open>psci_init_pwr_domain_node\<close> sets \<open>level\<close> and
  \<open>parent_node\<close> and initialises the lock of that slot, and changes nothing else; for a cpu
  slot it sets the parent, sets \<open>mpidr\<close> to the invalid value \<open>-1\<close>, sets the cpu's state to
  \<open>PSCI_STATE_OFF\<close>, invalidates the suspend power state and associates the non-secure
  context of the same index, and changes nothing else.
\<close>

theorem psci_init_pwr_domain_node_effect:
  "(lvl > PSCI_CPU_PWR_LVL \<longrightarrow>
      (let s' = psci_init_pwr_domain_node i p lvl s;
           n' = psci_non_cpu_pd_nodes s' i;
           n = psci_non_cpu_pd_nodes s i
       in level n' = lvl \<and> parent_node n' = p \<and> lock_initialised n' \<and>
          cpu_start_idx n' = cpu_start_idx n \<and> ncpus n' = ncpus n \<and> pd_state n' = pd_state n \<and>
          (\<forall>m. m \<noteq> i \<longrightarrow> psci_non_cpu_pd_nodes s' m = psci_non_cpu_pd_nodes s m) \<and>
          psci_cpu_pd_nodes s' = psci_cpu_pd_nodes s \<and> cpu_data s' = cpu_data s \<and>
          cm_ns_context s' = cm_ns_context s \<and>
          psci_plat_pm_ops s' = psci_plat_pm_ops s \<and> psci_caps s' = psci_caps s))
   \<and> (\<not> lvl > PSCI_CPU_PWR_LVL \<longrightarrow>
      (let s' = psci_init_pwr_domain_node i p lvl s
       in cpu_parent_node (psci_cpu_pd_nodes s' i) = p \<and>
          mpidr (psci_cpu_pd_nodes s' i) = - 1 \<and>
          psci_state (cpu_data s' i) = PSCI_STATE_OFF \<and>
          power_state (cpu_data s' i) = PSCI_INVALID_DATA \<and>
          cm_ns_context s' i = Some i \<and>
          (\<forall>c. c \<noteq> i \<longrightarrow> psci_cpu_pd_nodes s' c = psci_cpu_pd_nodes s c \<and>
                 cpu_data s' c = cpu_data s c \<and> cm_ns_context s' c = cm_ns_context s c) \<and>
          psci_non_cpu_pd_nodes s' = psci_non_cpu_pd_nodes s \<and>
          psci_plat_pm_ops s' = psci_plat_pm_ops s \<and> psci_caps s' = psci_caps s))"
  by (simp add: psci_init_pwr_domain_node_def Let_def)

theorem psci_init_pwr_domain_node_effect_witness:
  "level (psci_non_cpu_pd_nodes (psci_init_pwr_domain_node 1 0 1 bss_globals) 1) = 1 \<and>
   parent_node (psci_non_cpu_pd_nodes (psci_init_pwr_domain_node 1 0 1 bss_globals) 1) = 0 \<and>
   lock_initialised (psci_non_cpu_pd_nodes (psci_init_pwr_domain_node 1 0 1 bss_globals) 1) \<and>
   psci_non_cpu_pd_nodes (psci_init_pwr_domain_node 1 0 1 bss_globals) 2 = psci_non_cpu_pd_nodes bss_globals 2 \<and>
   cpu_parent_node (psci_cpu_pd_nodes (psci_init_pwr_domain_node 3 2 0 bss_globals) 3) = 2 \<and>
   mpidr (psci_cpu_pd_nodes (psci_init_pwr_domain_node 3 2 0 bss_globals) 3) = - 1 \<and>
   psci_state (cpu_data (psci_init_pwr_domain_node 3 2 0 bss_globals) 3) = PSCI_STATE_OFF \<and>
   power_state (cpu_data (psci_init_pwr_domain_node 3 2 0 bss_globals) 3) = PSCI_INVALID_DATA \<and>
   cm_ns_context (psci_init_pwr_domain_node 3 2 0 bss_globals) 3 = Some 3 \<and>
   cpu_data (psci_init_pwr_domain_node 3 2 0 bss_globals) 1 = cpu_data bss_globals 1"
  using psci_init_pwr_domain_node_effect [of 1 1 0 bss_globals]
        psci_init_pwr_domain_node_effect [of 0 3 2 bss_globals]
  by (simp add: PSCI_CPU_PWR_LVL_def Let_def)

text \<open>
  Claim C1. For a valid description and range fields that are zero on entry, the builder
  followed by the aggregator succeeds, and for every node the cpus in
  \<open>[cpu_start_idx, cpu_start_idx + ncpus)\<close> are exactly the cpus whose chain of
  \<open>parent_node\<close> links passes through that node.
\<close>

theorem range_exactness:
  assumes "valid_desc cfg d" and "limits_zeroed s0"
  shows "\<exists>s1 s2.
           populate_power_domain_tree cfg d (int (PLAT_MAX_PWR_LVL cfg)) s0 = Inr s1 \<and>
           psci_update_pwrlvl_limits cfg s1 = Inr s2 \<and>
           (\<forall>m. cpu_range s2 m =
                  {c. c < PLATFORM_CORE_COUNT cfg \<and> covers s2 (PLAT_MAX_PWR_LVL cfg) c m})"
proof -
  let ?L = "PLAT_MAX_PWR_LVL cfg" and ?N = "PLATFORM_CORE_COUNT cfg"
  let ?s1 = "tree_upto d ?L (Suc ?L) s0"
  let ?s2 = "?s1\<lparr>psci_non_cpu_pd_nodes := limits_spec ?s1 ?L ?N\<rparr>"
  have 1: "populate_power_domain_tree cfg d (int ?L) s0 = Inr ?s1"
    by (rule populate_valid [OF assms(1)])
  have 2: "psci_update_pwrlvl_limits cfg ?s1 = Inr ?s2"
    by (rule psci_update_pwrlvl_limits_ok [OF valid_tree_wf [OF assms(1)]])
  have cv: "\<And>c m. covers ?s2 ?L c m = covers ?s1 ?L c m"
    by (rule covers_cong) simp_all
  have 3: "\<forall>m. cpu_range ?s2 m = {c. c < ?N \<and> covers ?s2 ?L c m}"
    unfolding built_limits_range [OF assms] cv by (auto simp: covered_def)
  from 1 2 3 show ?thesis by blast
qed

theorem range_exactness_witness:
  "valid_desc example_config example_desc \<and> limits_zeroed bss_globals \<and>
   (\<exists>s1 s2.
      populate_power_domain_tree example_config example_desc 2 bss_globals = Inr s1 \<and>
      psci_update_pwrlvl_limits example_config s1 = Inr s2 \<and>
      (\<forall>m. cpu_range s2 m = {c. c < 4 \<and> covers s2 2 c m}))"
  using range_exactness [OF example_valid bss_limits_zeroed] example_valid bss_limits_zeroed
  by (simp add: example_config_def)

text \<open>
  Claim C4. For the description \<open>[1, 2, 2, 2]\<close> with three levels the builder and the
  aggregator yield the system node with \<open>ncpus = 4\<close>, two cluster nodes with \<open>ncpus = 2\<close> and
  \<open>cpu_start_idx\<close> 0 and 2, and cpu leaves 0 to 3, all \<open>OFF\<close>, with no node marked yet
  (the three nodes report \<open>OFF\<close>, as static storage has them); after \<^verbatim>\<open>psci_setup\<close> the
  leaf of the booting cpu and its two ancestors are \<open>ON\<close>, the other leaves are \<open>OFF\<close> and
  so is the other cluster.
\<close>

theorem example_two_clusters:
  assumes "me < 4"
  shows "(\<exists>s1 s2.
            populate_power_domain_tree example_config example_desc 2 bss_globals = Inr s1 \<and>
            psci_update_pwrlvl_limits example_config s1 = Inr s2 \<and>
            map (\<lambda>n. level (psci_non_cpu_pd_nodes s2 n)) [0, 1, 2] = [2, 1, 1] \<and>
            map (\<lambda>n. parent_node (psci_non_cpu_pd_nodes s2 n)) [0, 1, 2] = [- 1, 0, 0] \<and>
            map (\<lambda>n. cpu_start_idx (psci_non_cpu_pd_nodes s2 n)) [0, 1, 2] = [0, 0, 2] \<and>
            map (\<lambda>n. ncpus (psci_non_cpu_pd_nodes s2 n)) [0, 1, 2] = [4, 2, 2] \<and>
            map (\<lambda>c. cpu_parent_node (psci_cpu_pd_nodes s2 c)) [0, 1, 2, 3] = [1, 1, 2, 2] \<and>
            map (\<lambda>c. psci_state (cpu_data s2 c)) [0, 1, 2, 3] =
              [PSCI_STATE_OFF, PSCI_STATE_OFF, PSCI_STATE_OFF, PSCI_STATE_OFF] \<and>
            map (\<lambda>n. pd_state (psci_non_cpu_pd_nodes s2 n)) [0, 1, 2] =
              [PSCI_STATE_OFF, PSCI_STATE_OFF, PSCI_STATE_OFF])
       \<and> (\<exists>s. psci_setup example_config (example_platform me) bss_globals = Inr (0, s) \<and>
            map (\<lambda>n. cpu_start_idx (psci_non_cpu_pd_nodes s n)) [0, 1, 2] = [0, 0, 2] \<and>
            map (\<lambda>n. ncpus (psci_non_cpu_pd_nodes s n)) [0, 1, 2] = [4, 2, 2] \<and>
            map (\<lambda>c. psci_state (cpu_data s c)) [0, 1, 2, 3] =
              map (\<lambda>c. if c = me then PSCI_STATE_ON else PSCI_STATE_OFF) [0, 1, 2, 3] \<and>
            pd_state (psci_non_cpu_pd_nodes s 0) = PSCI_STATE_ON \<and>
            pd_state (psci_non_cpu_pd_nodes s (if me < 2 then 1 else 2)) = PSCI_STATE_ON \<and>
            pd_state (psci_non_cpu_pd_nodes s (if me < 2 then 2 else 1)) = PSCI_STATE_OFF)"
proof -
  have cfg: "PLAT_MAX_PWR_LVL example_config = 2" "PLATFORM_CORE_COUNT example_config = 4"
    by (simp_all add: example_config_def)
  let ?s1 = "tree_upto example_desc 2 3 bss_globals"
  let ?s2 = "?s1\<lparr>psci_non_cpu_pd_nodes := limits_spec ?s1 2 4\<rparr>"
  have 1: "populate_power_domain_tree example_config example_desc 2 bss_globals = Inr ?s1"
    using populate_valid [OF example_valid, of bss_globals] by (simp add: cfg del: tree_upto.simps)
  have 2: "psci_update_pwrlvl_limits example_config ?s1 = Inr ?s2"
    using psci_update_pwrlvl_limits_ok [OF valid_tree_wf [OF example_valid], of bss_globals]
    by (simp add: cfg del: tree_upto.simps)
  have bsn: "pd_state (psci_non_cpu_pd_nodes bss_globals m) = PSCI_STATE_OFF" for m
    by (simp add: bss_globals_def zero_node_def)
  have part1: "map (\<lambda>n. level (psci_non_cpu_pd_nodes ?s2 n)) [0, 1, 2] = [2, 1, 1] \<and>
            map (\<lambda>n. parent_node (psci_non_cpu_pd_nodes ?s2 n)) [0, 1, 2] = [- 1, 0, 0] \<and>
            map (\<lambda>n. cpu_start_idx (psci_non_cpu_pd_nodes ?s2 n)) [0, 1, 2] = [0, 0, 2] \<and>
            map (\<lambda>n. ncpus (psci_non_cpu_pd_nodes ?s2 n)) [0, 1, 2] = [4, 2, 2] \<and>
            map (\<lambda>c. cpu_parent_node (psci_cpu_pd_nodes ?s2 c)) [0, 1, 2, 3] = [1, 1, 2, 2] \<and>
            map (\<lambda>c. psci_state (cpu_data ?s2 c)) [0, 1, 2, 3] =
              [PSCI_STATE_OFF, PSCI_STATE_OFF, PSCI_STATE_OFF, PSCI_STATE_OFF] \<and>
            map (\<lambda>n. pd_state (psci_non_cpu_pd_nodes ?s2 n)) [0, 1, 2] =
              [PSCI_STATE_OFF, PSCI_STATE_OFF, PSCI_STATE_OFF]"
    by (simp add: example_tree_nodes example_tree_cpus example_tree_cpu_data
          example_limits [OF bss_limits_zeroed] bsn del: tree_upto.simps)
  have z: "limits_zeroed (bss_globals\<lparr>psci_plat_pm_ops := None\<rparr>)"
    using bss_limits_zeroed by (simp add: limits_zeroed_def)
  have me4: "platform_my_core_pos (example_platform me) < PLATFORM_CORE_COUNT example_config"
    using assms by (simp add: example_platform_def cfg)
  let ?s = "(booted_tree example_config (example_platform me) bss_globals)
              \<lparr>psci_plat_pm_ops := Some example_ops, psci_caps := psci_setup_caps example_config example_ops\<rparr>"
  have 3: "psci_setup example_config (example_platform me) bss_globals = Inr (0, ?s)"
    unfolding psci_setup_ok [OF example_platform_valid me4] by (simp add: example_platform_def)
  have part2: "map (\<lambda>n. cpu_start_idx (psci_non_cpu_pd_nodes ?s n)) [0, 1, 2] = [0, 0, 2] \<and>
            map (\<lambda>n. ncpus (psci_non_cpu_pd_nodes ?s n)) [0, 1, 2] = [4, 2, 2] \<and>
            map (\<lambda>c. psci_state (cpu_data ?s c)) [0, 1, 2, 3] =
              map (\<lambda>c. if c = me then PSCI_STATE_ON else PSCI_STATE_OFF) [0, 1, 2, 3] \<and>
            pd_state (psci_non_cpu_pd_nodes ?s 0) = PSCI_STATE_ON \<and>
            pd_state (psci_non_cpu_pd_nodes ?s (if me < 2 then 1 else 2)) = PSCI_STATE_ON \<and>
            pd_state (psci_non_cpu_pd_nodes ?s (if me < 2 then 2 else 1)) = PSCI_STATE_OFF"
    using assms
    by (simp add: example_booted [OF assms] example_limits [OF z] tree_upto_nodes_frame
          bsn del: tree_upto.simps)
  have A: "\<exists>s2. populate_power_domain_tree example_config example_desc 2 bss_globals = Inr ?s1 \<and>
            psci_update_pwrlvl_limits example_config ?s1 = Inr s2 \<and>
            map (\<lambda>n. level (psci_non_cpu_pd_nodes s2 n)) [0, 1, 2] = [2, 1, 1] \<and>
            map (\<lambda>n. parent_node (psci_non_cpu_pd_nodes s2 n)) [0, 1, 2] = [- 1, 0, 0] \<and>
            map (\<lambda>n. cpu_start_idx (psci_non_cpu_pd_nodes s2 n)) [0, 1, 2] = [0, 0, 2] \<and>
            map (\<lambda>n. ncpus (psci_non_cpu_pd_nodes s2 n)) [0, 1, 2] = [4, 2, 2] \<and>
            map (\<lambda>c. cpu_parent_node (psci_cpu_pd_nodes s2 c)) [0, 1, 2, 3] = [1, 1, 2, 2] \<and>
            map (\<lambda>c. psci_state (cpu_data s2 c)) [0, 1, 2, 3] =
              [PSCI_STATE_OFF, PSCI_STATE_OFF, PSCI_STATE_OFF, PSCI_STATE_OFF] \<and>
            map (\<lambda>n. pd_state (psci_non_cpu_pd_nodes s2 n)) [0, 1, 2] =
              [PSCI_STATE_OFF, PSCI_STATE_OFF, PSCI_STATE_OFF]"
    by (rule exI [of _ ?s2]) (rule conjI [OF 1 conjI [OF 2 part1]])
  have B: "\<exists>s. psci_setup example_config (example_platform me) bss_globals = Inr (0, s) \<and>
            map (\<lambda>n. cpu_start_idx (psci_non_cpu_pd_nodes s n)) [0, 1, 2] = [0, 0, 2] \<and>
            map (\<lambda>n. ncpus (psci_non_cpu_pd_nodes s n)) [0, 1, 2] = [4, 2, 2] \<and>
            map (\<lambda>c. psci_state (cpu_data s c)) [0, 1, 2, 3] =
              map (\<lambda>c. if c = me then PSCI_STATE_ON else PSCI_STATE_OFF) [0, 1, 2, 3] \<and>
            pd_state (psci_non_cpu_pd_nodes s 0) = PSCI_STATE_ON \<and>
            pd_state (psci_non_cpu_pd_nodes s (if me < 2 then 1 else 2)) = PSCI_STATE_ON \<and>
            pd_state (psci_non_cpu_pd_nodes s (if me < 2 then 2 else 1)) = PSCI_STATE_OFF"
    by (rule exI [of _ ?s]) (rule conjI [OF 3 part2])
  show ?thesis
  proof (rule conjI)
    show "\<exists>s2. psci_setup example_config (example_platform me) bss_globals = Inr (0, s2) \<and>
            map (\<lambda>n. cpu_start_idx (psci_non_cpu_pd_nodes s2 n)) [0, 1, 2] = [0, 0, 2] \<and>
            map (\<lambda>n. ncpus (psci_non_cpu_pd_nodes s2 n)) [0, 1, 2] = [4, 2, 2] \<and>
            map (\<lambda>c. psci_state (cpu_data s2 c)) [0, 1, 2, 3] =
              map (\<lambda>c. if c = me then PSCI_STATE_ON else PSCI_STATE_OFF) [0, 1, 2, 3] \<and>
            pd_state (psci_non_cpu_pd_nodes s2 0) = PSCI_STATE_ON \<and>
            pd_state (psci_non_cpu_pd_nodes s2 (if me < 2 then 1 else 2)) = PSCI_STATE_ON \<and>
            pd_state (psci_non_cpu_pd_nodes s2 (if me < 2 then 2 else 1)) = PSCI_STATE_OFF"
      by (rule B)
  next
    show "\<exists>s1 s2.
            populate_power_domain_tree example_config example_desc 2 bss_globals = Inr s1 \<and>
            psci_update_pwrlvl_limits example_config s1 = Inr s2 \<and>
            map (\<lambda>n. level (psci_non_cpu_pd_nodes s2 n)) [0, 1, 2] = [2, 1, 1] \<and>
            map (\<lambda>n. parent_node (psci_non_cpu_pd_nodes s2 n)) [0, 1, 2] = [- 1, 0, 0] \<and>
            map (\<lambda>n. cpu_start_idx (psci_non_cpu_pd_nodes s2 n)) [0, 1, 2] = [0, 0, 2] \<and>
            map (\<lambda>n. ncpus (psci_non_cpu_pd_nodes s2 n)) [0, 1, 2] = [4, 2, 2] \<and>
            map (\<lambda>c. cpu_parent_node (psci_cpu_pd_nodes s2 c)) [0, 1, 2, 3] = [1, 1, 2, 2] \<and>
            map (\<lambda>c. psci_state (cpu_data s2 c)) [0, 1, 2, 3] =
              [PSCI_STATE_OFF, PSCI_STATE_OFF, PSCI_STATE_OFF, PSCI_STATE_OFF] \<and>
            map (\<lambda>n. pd_state (psci_non_cpu_pd_nodes s2 n)) [0, 1, 2] =
              [PSCI_STATE_OFF, PSCI_STATE_OFF, PSCI_STATE_OFF]"
      by (rule exI [of _ ?s1]) (rule A)
  qed
qed

theorem example_two_clusters_witness:
  "(2::nat) < 4 \<and>
   (\<exists>s. psci_setup example_config (example_platform 2) bss_globals = Inr (0, s) \<and>
        ncpus (psci_non_cpu_pd_nodes s 0) = 4 \<and>
        cpu_start_idx (psci_non_cpu_pd_nodes s 2) = 2 \<and>
        psci_state (cpu_data s 2) = PSCI_STATE_ON \<and>
        psci_state (cpu_data s 3) = PSCI_STATE_OFF \<and>
        pd_state (psci_non_cpu_pd_nodes s 0) = PSCI_STATE_ON \<and>
        pd_state (psci_non_cpu_pd_nodes s 2) = PSCI_STATE_ON \<and>
        pd_state (psci_non_cpu_pd_nodes s 1) = PSCI_STATE_OFF)"
  using example_two_clusters [of 2] by auto

text \<open>
  Claim C6. For a valid description (and range fields that are zero on entry) the tree built
  by \<^verbatim>\<open>populate_power_domain_tree\<close>, with the ranges that \<^verbatim>\<open>psci_update_pwrlvl_limits\<close>
  computes, satisfies: two siblings have disjoint cpu ranges; the ranges of siblings follow
  the order of the sibling indices, and every cpu index between the ranges of two siblings
  lies in the range of a sibling (no gap); the range of a child node is a subset of the
  range of its parent, and every cpu lies in the range of its parent; every node of the top
  level has \<open>parent_node = -1\<close>.
\<close>

theorem tree_range_invariants:
  assumes "valid_desc cfg d" and "limits_zeroed s0"
  shows "\<exists>s1 s2.
           populate_power_domain_tree cfg d (int (PLAT_MAX_PWR_LVL cfg)) s0 = Inr s1 \<and>
           psci_update_pwrlvl_limits cfg s1 = Inr s2 \<and>
           (\<forall>m m'. siblings s2 (non_cpu_count d (PLAT_MAX_PWR_LVL cfg)) m m' \<longrightarrow>
              cpu_range s2 m \<inter> cpu_range s2 m' = {}) \<and>
           (\<forall>m m' c c'. siblings s2 (non_cpu_count d (PLAT_MAX_PWR_LVL cfg)) m m' \<and> m < m' \<and>
              c \<in> cpu_range s2 m \<and> c' \<in> cpu_range s2 m' \<longrightarrow> c < c') \<and>
           (\<forall>m m' c c' x. siblings s2 (non_cpu_count d (PLAT_MAX_PWR_LVL cfg)) m m' \<and>
              c \<in> cpu_range s2 m \<and> c' \<in> cpu_range s2 m' \<and> c \<le> x \<and> x \<le> c' \<longrightarrow>
              (\<exists>m''<non_cpu_count d (PLAT_MAX_PWR_LVL cfg).
                 parent_node (psci_non_cpu_pd_nodes s2 m'') = parent_node (psci_non_cpu_pd_nodes s2 m) \<and>
                 x \<in> cpu_range s2 m'')) \<and>
           (\<forall>m<non_cpu_count d (PLAT_MAX_PWR_LVL cfg).
              0 \<le> parent_node (psci_non_cpu_pd_nodes s2 m) \<longrightarrow>
              cpu_range s2 m \<subseteq> cpu_range s2 (nat (parent_node (psci_non_cpu_pd_nodes s2 m)))) \<and>
           (\<forall>c<PLATFORM_CORE_COUNT cfg. 0 < PLAT_MAX_PWR_LVL cfg \<longrightarrow>
              c \<in> cpu_range s2 (nat (cpu_parent_node (psci_cpu_pd_nodes s2 c)))) \<and>
           (\<forall>m<non_cpu_count d (PLAT_MAX_PWR_LVL cfg).
              level (psci_non_cpu_pd_nodes s2 m) = int (PLAT_MAX_PWR_LVL cfg) \<longrightarrow>
              parent_node (psci_non_cpu_pd_nodes s2 m) = - 1)"
proof -
  let ?L = "PLAT_MAX_PWR_LVL cfg" and ?N = "PLATFORM_CORE_COUNT cfg"
  let ?M = "non_cpu_count d ?L"
  let ?s1 = "tree_upto d ?L (Suc ?L) s0"
  let ?s2 = "?s1\<lparr>psci_non_cpu_pd_nodes := limits_spec ?s1 ?L ?N\<rparr>"
  let ?C = "covered ?s1 ?L ?N"
  have wf: "tree_wf ?L ?M ?N ?s1" by (rule valid_tree_wf [OF assms(1)])
  have 1: "populate_power_domain_tree cfg d (int ?L) s0 = Inr ?s1"
    by (rule populate_valid [OF assms(1)])
  have 2: "psci_update_pwrlvl_limits cfg ?s1 = Inr ?s2"
    by (rule psci_update_pwrlvl_limits_ok [OF wf])
  have rg: "\<And>m. cpu_range ?s2 m = ?C m" by (rule built_limits_range [OF assms])
  have par: "\<And>m. parent_node (psci_non_cpu_pd_nodes ?s2 m) = parent_node (psci_non_cpu_pd_nodes ?s1 m)"
    and lev: "\<And>m. level (psci_non_cpu_pd_nodes ?s2 m) = level (psci_non_cpu_pd_nodes ?s1 m)"
    and cpus: "psci_cpu_pd_nodes ?s2 = psci_cpu_pd_nodes ?s1"
    by simp_all
  have sib: "\<And>m m'. siblings ?s2 ?M m m' = siblings ?s1 ?M m m'"
    unfolding siblings_def par ..
  have a: "\<forall>m m'. siblings ?s2 ?M m m' \<longrightarrow> cpu_range ?s2 m \<inter> cpu_range ?s2 m' = {}"
  proof (intro allI impI)
    fix m m' assume "siblings ?s2 ?M m m'"
    then have s: "m < ?M" "m' < ?M" "m \<noteq> m'"
      "parent_node (psci_non_cpu_pd_nodes ?s1 m) = parent_node (psci_non_cpu_pd_nodes ?s1 m')"
      unfolding sib siblings_def by simp_all
    have lv: "level (psci_non_cpu_pd_nodes ?s1 m) = level (psci_non_cpu_pd_nodes ?s1 m')"
      by (rule tree_wf_sibling_level [OF wf s(1) s(2) s(4)])
    show "cpu_range ?s2 m \<inter> cpu_range ?s2 m' = {}"
      unfolding rg using covered_same_level_disjoint [OF wf lv] s(3) by blast
  qed
  have b: "\<forall>m m' c c'. siblings ?s2 ?M m m' \<and> m < m' \<and>
              c \<in> cpu_range ?s2 m \<and> c' \<in> cpu_range ?s2 m' \<longrightarrow> c < c'"
  proof (intro allI impI)
    fix m m' c c'
    assume h: "siblings ?s2 ?M m m' \<and> m < m' \<and> c \<in> cpu_range ?s2 m \<and> c' \<in> cpu_range ?s2 m'"
    then have s: "m < ?M" "m' < ?M"
      "parent_node (psci_non_cpu_pd_nodes ?s1 m) = parent_node (psci_non_cpu_pd_nodes ?s1 m')"
      unfolding sib siblings_def by simp_all
    have lv: "level (psci_non_cpu_pd_nodes ?s1 m) = level (psci_non_cpu_pd_nodes ?s1 m')"
      by (rule tree_wf_sibling_level [OF wf s])
    from h have "c \<in> ?C m" "c' \<in> ?C m'" "m < m'" unfolding rg by simp_all
    then show "c < c'" using covered_same_level_ordered [OF wf lv] by blast
  qed
  have c: "\<forall>m m' c c' x. siblings ?s2 ?M m m' \<and>
              c \<in> cpu_range ?s2 m \<and> c' \<in> cpu_range ?s2 m' \<and> c \<le> x \<and> x \<le> c' \<longrightarrow>
              (\<exists>m''<?M.
                 parent_node (psci_non_cpu_pd_nodes ?s2 m'') = parent_node (psci_non_cpu_pd_nodes ?s2 m) \<and>
                 x \<in> cpu_range ?s2 m'')"
  proof (intro allI impI)
    fix m m' c c' x
    assume h: "siblings ?s2 ?M m m' \<and> c \<in> cpu_range ?s2 m \<and> c' \<in> cpu_range ?s2 m' \<and> c \<le> x \<and> x \<le> c'"
    then have s: "m < ?M" "m' < ?M"
      "parent_node (psci_non_cpu_pd_nodes ?s1 m) = parent_node (psci_non_cpu_pd_nodes ?s1 m')"
      unfolding sib siblings_def by simp_all
    from h have cc: "c \<in> ?C m" "c' \<in> ?C m'" "c \<le> x" "x \<le> c'" unfolding rg by simp_all
    show "\<exists>m''<?M.
                 parent_node (psci_non_cpu_pd_nodes ?s2 m'') = parent_node (psci_non_cpu_pd_nodes ?s2 m) \<and>
                 x \<in> cpu_range ?s2 m''"
      unfolding rg par by (rule covered_siblings_contiguous [OF wf s cc])
  qed
  have d: "\<forall>m<?M. 0 \<le> parent_node (psci_non_cpu_pd_nodes ?s2 m) \<longrightarrow>
              cpu_range ?s2 m \<subseteq> cpu_range ?s2 (nat (parent_node (psci_non_cpu_pd_nodes ?s2 m)))"
    unfolding rg par using covered_parent [OF wf] by blast
  have e: "\<forall>c<?N. 0 < ?L \<longrightarrow> c \<in> cpu_range ?s2 (nat (cpu_parent_node (psci_cpu_pd_nodes ?s2 c)))"
  proof (intro allI impI)
    fix c assume c: "c < ?N" and L: "0 < ?L"
    have "0 \<le> ancestor ?s1 c 0" using tree_wf_ancestor [OF wf c L] by simp
    then have "ancestor ?s1 c 0 = int (nat (cpu_parent_node (psci_cpu_pd_nodes ?s1 c)))"
      by (simp add: ancestor_0)
    then have "c \<in> ?C (nat (cpu_parent_node (psci_cpu_pd_nodes ?s1 c)))"
      by (rule covered_intro [OF L c])
    then show "c \<in> cpu_range ?s2 (nat (cpu_parent_node (psci_cpu_pd_nodes ?s2 c)))"
      unfolding rg cpus .
  qed
  have f: "\<forall>m<?M. level (psci_non_cpu_pd_nodes ?s2 m) = int ?L \<longrightarrow>
              parent_node (psci_non_cpu_pd_nodes ?s2 m) = - 1"
    unfolding par lev using wf unfolding tree_wf_def by blast
  show ?thesis
    apply (rule exI [of _ ?s1])
    apply (rule exI [of _ ?s2])
    apply (intro conjI)
           apply (rule 1)
          apply (rule 2)
         apply (rule a)
        apply (rule b)
       apply (rule c)
      apply (rule d)
     apply (rule e)
    apply (rule f)
    done
qed

theorem tree_range_invariants_witness:
  "valid_desc example_config example_desc \<and> limits_zeroed bss_globals \<and>
   (\<exists>s1 s2.
      populate_power_domain_tree example_config example_desc 2 bss_globals = Inr s1 \<and>
      psci_update_pwrlvl_limits example_config s1 = Inr s2 \<and>
      siblings s2 3 1 2 \<and> cpu_range s2 1 \<inter> cpu_range s2 2 = {} \<and>
      parent_node (psci_non_cpu_pd_nodes s2 1) = 0 \<and> cpu_range s2 1 \<subseteq> cpu_range s2 0 \<and>
      level (psci_non_cpu_pd_nodes s2 0) = 2 \<and> parent_node (psci_non_cpu_pd_nodes s2 0) = - 1)"
proof -
  let ?s1 = "tree_upto example_desc 2 3 bss_globals"
  let ?s2 = "?s1\<lparr>psci_non_cpu_pd_nodes := limits_spec ?s1 2 4\<rparr>"
  from tree_range_invariants [OF example_valid bss_limits_zeroed]
  obtain s1 s2 where r:
    "populate_power_domain_tree example_config example_desc 2 bss_globals = Inr s1"
    "psci_update_pwrlvl_limits example_config s1 = Inr s2"
    "\<forall>m m'. siblings s2 3 m m' \<longrightarrow> cpu_range s2 m \<inter> cpu_range s2 m' = {}"
    "\<forall>m<3. 0 \<le> parent_node (psci_non_cpu_pd_nodes s2 m) \<longrightarrow>
              cpu_range s2 m \<subseteq> cpu_range s2 (nat (parent_node (psci_non_cpu_pd_nodes s2 m)))"
    "\<forall>m<3. level (psci_non_cpu_pd_nodes s2 m) = 2 \<longrightarrow> parent_node (psci_non_cpu_pd_nodes s2 m) = - 1"
    unfolding example_cfg example_non_cpu_count by auto
  have s1: "s1 = ?s1" using r(1) unfolding example_populate by simp
  have s2: "s2 = ?s2" using r(2) unfolding s1 example_update by simp
  have nodes: "parent_node (psci_non_cpu_pd_nodes s2 1) = 0" "parent_node (psci_non_cpu_pd_nodes s2 2) = 0"
    "level (psci_non_cpu_pd_nodes s2 0) = 2"
    unfolding s2 by (simp_all add: example_tree_nodes del: tree_upto.simps)
  have sib: "siblings s2 3 1 2" unfolding siblings_def nodes by simp
  have "0 \<le> parent_node (psci_non_cpu_pd_nodes s2 1) \<longrightarrow>
          cpu_range s2 1 \<subseteq> cpu_range s2 (nat (parent_node (psci_non_cpu_pd_nodes s2 1)))"
    using r(4) by simp
  then have sub: "cpu_range s2 1 \<subseteq> cpu_range s2 0" unfolding nodes by simp
  have root: "parent_node (psci_non_cpu_pd_nodes s2 0) = - 1" using r(5) nodes by simp
  have dis: "cpu_range s2 1 \<inter> cpu_range s2 2 = {}" using r(3) sib by blast
  have ex: "\<exists>s1 s2.
      populate_power_domain_tree example_config example_desc 2 bss_globals = Inr s1 \<and>
      psci_update_pwrlvl_limits example_config s1 = Inr s2 \<and>
      siblings s2 3 1 2 \<and> cpu_range s2 1 \<inter> cpu_range s2 2 = {} \<and>
      parent_node (psci_non_cpu_pd_nodes s2 1) = 0 \<and> cpu_range s2 1 \<subseteq> cpu_range s2 0 \<and>
      level (psci_non_cpu_pd_nodes s2 0) = 2 \<and> parent_node (psci_non_cpu_pd_nodes s2 0) = - 1"
    using r(1) r(2) sib dis nodes(1) sub nodes(3) root by blast
  show ?thesis using example_valid bss_limits_zeroed ex by blast
qed

text \<open>
  Claim C5. After \<^verbatim>\<open>psci_setup\<close> has returned (for a valid description and a booting cpu
  below \<open>PLATFORM_CORE_COUNT\<close>), the leaf of the booting cpu reports \<open>ON\<close>, its ancestor at
  each level from 1 to \<open>PLAT_MAX_PWR_LVL\<close> exists and reports \<open>ON\<close>, and every other cpu leaf
  reports \<open>OFF\<close>.
\<close>

theorem boot_path_on:
  assumes v: "valid_desc cfg (platform_get_power_domain_tree_desc plat)"
    and me: "platform_my_core_pos plat < PLATFORM_CORE_COUNT cfg"
    and run: "psci_setup cfg plat s0 = Inr (r, s')"
  shows "psci_state (cpu_data s' (platform_my_core_pos plat)) = PSCI_STATE_ON \<and>
         (\<forall>k<PLAT_MAX_PWR_LVL cfg.
            0 \<le> ancestor s' (platform_my_core_pos plat) k \<and>
            level (psci_non_cpu_pd_nodes s' (nat (ancestor s' (platform_my_core_pos plat) k))) = int k + 1 \<and>
            pd_state (psci_non_cpu_pd_nodes s' (nat (ancestor s' (platform_my_core_pos plat) k))) = PSCI_STATE_ON) \<and>
         (\<forall>c<PLATFORM_CORE_COUNT cfg. c \<noteq> platform_my_core_pos plat \<longrightarrow>
            psci_state (cpu_data s' c) = PSCI_STATE_OFF)"
proof -
  let ?L = "PLAT_MAX_PWR_LVL cfg" and ?N = "PLATFORM_CORE_COUNT cfg"
  let ?d = "platform_get_power_domain_tree_desc plat" and ?me = "platform_my_core_pos plat"
  let ?s1 = "built_tree cfg plat s0"
  let ?chain = "map (\<lambda>k. nat (ancestor ?s1 ?me k)) [0 ..< ?L]"
  from psci_setup_Inr [OF v me run] obtain ops where
    s': "s' = (booted_tree cfg plat s0)\<lparr>psci_plat_pm_ops := Some ops, psci_caps := psci_setup_caps cfg ops\<rparr>"
    by blast
  have wf: "tree_wf ?L (non_cpu_count ?d ?L) ?N ?s1"
    unfolding built_tree_def by (rule valid_tree_wf [OF v])
  have nodes: "\<And>m. psci_non_cpu_pd_nodes s' m =
      (if m \<in> set ?chain then (limits_spec ?s1 ?L ?N m)\<lparr>pd_state := PSCI_STATE_ON\<rparr>
       else limits_spec ?s1 ?L ?N m)"
    unfolding s' booted_tree_def Let_def by (simp add: fold_pd_state)
  have data: "\<And>c. cpu_data s' c =
      (if c = ?me then (cpu_data ?s1 ?me)\<lparr>psci_state := PSCI_STATE_ON\<rparr> else cpu_data ?s1 c)"
    unfolding s' booted_tree_def Let_def by simp
  have cpar: "\<And>c. cpu_parent_node (psci_cpu_pd_nodes s' c) = cpu_parent_node (psci_cpu_pd_nodes ?s1 c)"
    unfolding s' booted_tree_def Let_def by simp
  have par: "\<And>m. parent_node (psci_non_cpu_pd_nodes s' m) = parent_node (psci_non_cpu_pd_nodes ?s1 m)"
    and lev: "\<And>m. level (psci_non_cpu_pd_nodes s' m) = level (psci_non_cpu_pd_nodes ?s1 m)"
    unfolding nodes by simp_all
  have anc: "\<And>k. ancestor s' ?me k = ancestor ?s1 ?me k"
    by (rule ancestor_cong [OF par cpar])
  have a: "psci_state (cpu_data s' ?me) = PSCI_STATE_ON" unfolding data by simp
  have b: "\<forall>k<?L. 0 \<le> ancestor s' ?me k \<and>
            level (psci_non_cpu_pd_nodes s' (nat (ancestor s' ?me k))) = int k + 1 \<and>
            pd_state (psci_non_cpu_pd_nodes s' (nat (ancestor s' ?me k))) = PSCI_STATE_ON"
  proof (intro allI impI)
    fix k assume k: "k < ?L"
    have in_chain: "nat (ancestor ?s1 ?me k) \<in> set ?chain" using k by simp
    have "pd_state (psci_non_cpu_pd_nodes s' (nat (ancestor ?s1 ?me k))) = PSCI_STATE_ON"
      unfolding nodes using in_chain by (simp del: set_map set_upt)
    then show "0 \<le> ancestor s' ?me k \<and>
            level (psci_non_cpu_pd_nodes s' (nat (ancestor s' ?me k))) = int k + 1 \<and>
            pd_state (psci_non_cpu_pd_nodes s' (nat (ancestor s' ?me k))) = PSCI_STATE_ON"
      unfolding anc lev using tree_wf_ancestor [OF wf me k] by simp
  qed
  have c: "\<forall>c<?N. c \<noteq> ?me \<longrightarrow> psci_state (cpu_data s' c) = PSCI_STATE_OFF"
    unfolding data built_tree_def using valid_cpus_inside(2) [OF v] by simp
  from a b c show ?thesis by blast
qed

theorem boot_path_on_witness:
  "valid_desc example_config (platform_get_power_domain_tree_desc (example_platform 2)) \<and>
   platform_my_core_pos (example_platform 2) < PLATFORM_CORE_COUNT example_config \<and>
   (\<exists>s'. psci_setup example_config (example_platform 2) bss_globals = Inr (0, s') \<and>
      psci_state (cpu_data s' 2) = PSCI_STATE_ON \<and>
      pd_state (psci_non_cpu_pd_nodes s' (nat (ancestor s' 2 0))) = PSCI_STATE_ON \<and>
      pd_state (psci_non_cpu_pd_nodes s' (nat (ancestor s' 2 1))) = PSCI_STATE_ON \<and>
      psci_state (cpu_data s' 0) = PSCI_STATE_OFF \<and>
      psci_state (cpu_data s' 1) = PSCI_STATE_OFF \<and>
      psci_state (cpu_data s' 3) = PSCI_STATE_OFF)"
proof -
  have me: "platform_my_core_pos (example_platform 2) < PLATFORM_CORE_COUNT example_config"
    by (simp add: example_platform_def example_cfg)
  obtain s' where run: "psci_setup example_config (example_platform 2) bss_globals = Inr (0, s')"
    unfolding psci_setup_ok [OF example_platform_valid me] by (simp add: example_platform_def)
  from boot_path_on [OF example_platform_valid me run]
  have "psci_state (cpu_data s' 2) = PSCI_STATE_ON \<and>
      pd_state (psci_non_cpu_pd_nodes s' (nat (ancestor s' 2 0))) = PSCI_STATE_ON \<and>
      pd_state (psci_non_cpu_pd_nodes s' (nat (ancestor s' 2 1))) = PSCI_STATE_ON \<and>
      psci_state (cpu_data s' 0) = PSCI_STATE_OFF \<and>
      psci_state (cpu_data s' 1) = PSCI_STATE_OFF \<and>
      psci_state (cpu_data s' 3) = PSCI_STATE_OFF"
    by (simp add: example_platform_def example_cfg)
  with run example_platform_valid me show ?thesis by blast
qed

text \<open>
  Claim C9. For every valid description the builder returns, and the cpu leaves it has
  initialised are exactly the slots \<open>0\<close> to \<open>PLATFORM_CORE_COUNT - 1\<close> of
  \<^verbatim>\<open>psci_cpu_pd_nodes\<close> (each with its own context, every slot from \<open>PLATFORM_CORE_COUNT\<close> on
  untouched), whatever the number of slots of \<^verbatim>\<open>psci_non_cpu_pd_nodes\<close> it has allocated:
  those are the slots \<open>0\<close> to \<open>non_cpu_count - 1\<close> of the other array.
\<close>

theorem cpu_leaves_from_zero:
  assumes "valid_desc cfg d"
  shows "\<exists>s'. populate_power_domain_tree cfg d (int (PLAT_MAX_PWR_LVL cfg)) s = Inr s' \<and>
           (\<forall>c<PLATFORM_CORE_COUNT cfg.
              cm_ns_context s' c = Some c \<and> mpidr (psci_cpu_pd_nodes s' c) = - 1 \<and>
              psci_state (cpu_data s' c) = PSCI_STATE_OFF \<and>
              power_state (cpu_data s' c) = PSCI_INVALID_DATA \<and>
              cpu_parent_node (psci_cpu_pd_nodes s' c) < int (non_cpu_count d (PLAT_MAX_PWR_LVL cfg))) \<and>
           (\<forall>c. PLATFORM_CORE_COUNT cfg \<le> c \<longrightarrow>
              psci_cpu_pd_nodes s' c = psci_cpu_pd_nodes s c \<and> cpu_data s' c = cpu_data s c \<and>
              cm_ns_context s' c = cm_ns_context s c) \<and>
           (\<forall>m<non_cpu_count d (PLAT_MAX_PWR_LVL cfg).
              lock_initialised (psci_non_cpu_pd_nodes s' m) \<and> 1 \<le> level (psci_non_cpu_pd_nodes s' m)) \<and>
           (\<forall>m. non_cpu_count d (PLAT_MAX_PWR_LVL cfg) \<le> m \<longrightarrow>
              psci_non_cpu_pd_nodes s' m = psci_non_cpu_pd_nodes s m)"
proof -
  let ?L = "PLAT_MAX_PWR_LVL cfg" and ?N = "PLATFORM_CORE_COUNT cfg"
  let ?s' = "tree_upto d ?L (Suc ?L) s"
  have N: "leaf_count d ?L = ?N" using assms by (simp add: valid_desc_def)
  have wf: "tree_wf ?L (non_cpu_count d ?L) ?N ?s'" by (rule valid_tree_wf [OF assms])
  have 1: "populate_power_domain_tree cfg d (int ?L) s = Inr ?s'" by (rule populate_valid [OF assms])
  have a: "\<forall>c<?N. cm_ns_context ?s' c = Some c \<and> mpidr (psci_cpu_pd_nodes ?s' c) = - 1 \<and>
              psci_state (cpu_data ?s' c) = PSCI_STATE_OFF \<and>
              power_state (cpu_data ?s' c) = PSCI_INVALID_DATA \<and>
              cpu_parent_node (psci_cpu_pd_nodes ?s' c) < int (non_cpu_count d ?L)"
    using tree_cpus_inside [of _ d ?L s] unfolding N by blast
  have b: "\<forall>c. ?N \<le> c \<longrightarrow>
              psci_cpu_pd_nodes ?s' c = psci_cpu_pd_nodes s c \<and> cpu_data ?s' c = cpu_data s c \<and>
              cm_ns_context ?s' c = cm_ns_context s c"
    using tree_cpus_beyond [of d ?L _ s] unfolding N by blast
  have c: "\<forall>m<non_cpu_count d ?L.
              lock_initialised (psci_non_cpu_pd_nodes ?s' m) \<and> 1 \<le> level (psci_non_cpu_pd_nodes ?s' m)"
    using tree_nodes_initialised [of _ d ?L s] wf unfolding tree_wf_def by blast
  have d: "\<forall>m. non_cpu_count d ?L \<le> m \<longrightarrow> psci_non_cpu_pd_nodes ?s' m = psci_non_cpu_pd_nodes s m"
    using tree_nodes_beyond [of d ?L _ s] by blast
  show ?thesis
    by (rule exI [of _ ?s']) (intro conjI 1 a b c d)
qed

theorem cpu_leaves_from_zero_witness:
  "valid_desc example_config example_desc \<and>
   (\<exists>s'. populate_power_domain_tree example_config example_desc 2 bss_globals = Inr s' \<and>
      cm_ns_context s' 0 = Some 0 \<and> cm_ns_context s' 3 = Some 3 \<and>
      cm_ns_context s' 4 = cm_ns_context bss_globals 4 \<and>
      lock_initialised (psci_non_cpu_pd_nodes s' 2) \<and>
      psci_non_cpu_pd_nodes s' 3 = psci_non_cpu_pd_nodes bss_globals 3)"
proof -
  from cpu_leaves_from_zero [OF example_valid, of bss_globals]
  obtain s' where r: "populate_power_domain_tree example_config example_desc 2 bss_globals = Inr s'"
    "\<forall>c<4. cm_ns_context s' c = Some c"
    "\<forall>c. 4 \<le> c \<longrightarrow> cm_ns_context s' c = cm_ns_context bss_globals c"
    "\<forall>m<3. lock_initialised (psci_non_cpu_pd_nodes s' m)"
    "\<forall>m. 3 \<le> m \<longrightarrow> psci_non_cpu_pd_nodes s' m = psci_non_cpu_pd_nodes bss_globals m"
    unfolding example_cfg example_non_cpu_count by auto
  have "cm_ns_context s' 0 = Some 0" "cm_ns_context s' 3 = Some 3"
    "cm_ns_context s' 4 = cm_ns_context bss_globals 4"
    "lock_initialised (psci_non_cpu_pd_nodes s' 2)"
    "psci_non_cpu_pd_nodes s' 3 = psci_non_cpu_pd_nodes bss_globals 3"
    using r(2-5) by simp_all
  with r(1) example_valid show ?thesis by blast
qed

text \<open>
  Claim C10. Whenever \<^verbatim>\<open>psci_setup\<close> returns, it returns 0.
\<close>

theorem psci_setup_returns_zero:
  "psci_setup cfg plat s0 = Inr (r, s') \<Longrightarrow> r = 0"
  by (auto simp: psci_setup_def Let_def split: sum.splits option.splits)

theorem psci_setup_returns_zero_witness:
  "\<exists>r s'. psci_setup example_config (example_platform 2) bss_globals = Inr (r, s') \<and> r = 0"
proof -
  have me: "platform_my_core_pos (example_platform 2) < PLATFORM_CORE_COUNT example_config"
    by (simp add: example_platform_def example_cfg)
  obtain r s' where run: "psci_setup example_config (example_platform 2) bss_globals = Inr (r, s')"
    unfolding psci_setup_ok [OF example_platform_valid me] by (simp add: example_platform_def)
  from psci_setup_returns_zero [OF run] run show ?thesis by blast
qed

text \<open>
  Claim C2. After \<^verbatim>\<open>psci_setup\<close> has returned, \<^verbatim>\<open>psci_caps\<close> contains the generic
  capability, and each further capability if and only if its hooks are present in the
  table the platform gave: CPU\_OFF iff \<open>pwr_domain_off\<close>; CPU\_ON iff both \<open>pwr_domain_on\<close>
  and \<open>pwr_domain_on_finish\<close>; CPU\_SUSPEND iff both \<open>pwr_domain_suspend\<close> and
  \<open>pwr_domain_suspend_finish\<close>; SYSTEM\_OFF iff \<open>system_off\<close>; SYSTEM\_RESET iff
  \<open>system_reset\<close>.
\<close>

theorem psci_caps_iff_hooks:
  assumes "psci_setup cfg plat s0 = Inr (r, s')" and "caps_distinct cfg"
  shows "\<exists>ops. platform_setup_pm plat = Some ops \<and> psci_plat_pm_ops s' = Some ops \<and>
           cap_set (psci_caps s') (PSCI_GENERIC_CAP cfg) \<and>
           (cap_set (psci_caps s') (CAP_PSCI_CPU_OFF cfg) \<longleftrightarrow> pwr_domain_off ops \<noteq> 0) \<and>
           (cap_set (psci_caps s') (CAP_PSCI_CPU_ON_AARCH64 cfg) \<longleftrightarrow>
              pwr_domain_on ops \<noteq> 0 \<and> pwr_domain_on_finish ops \<noteq> 0) \<and>
           (cap_set (psci_caps s') (CAP_PSCI_CPU_SUSPEND_AARCH64 cfg) \<longleftrightarrow>
              pwr_domain_suspend ops \<noteq> 0 \<and> pwr_domain_suspend_finish ops \<noteq> 0) \<and>
           (cap_set (psci_caps s') (CAP_PSCI_SYSTEM_OFF cfg) \<longleftrightarrow> system_off ops \<noteq> 0) \<and>
           (cap_set (psci_caps s') (CAP_PSCI_SYSTEM_RESET cfg) \<longleftrightarrow> system_reset ops \<noteq> 0)"
proof -
  from psci_setup_caps_result [OF assms(1)] obtain ops where
    ops: "platform_setup_pm plat = Some ops" "psci_plat_pm_ops s' = Some ops"
      "psci_caps s' = psci_setup_caps cfg ops" by blast
  show ?thesis
    apply (rule exI [of _ ops])
    unfolding ops(3)
    apply (intro conjI ops(1) ops(2) psci_setup_caps_sets [OF assms(2)])
    done
qed

theorem psci_caps_iff_hooks_witness:
  "caps_distinct example_config \<and>
   (\<exists>s'. psci_setup example_config (example_platform 2) bss_globals = Inr (0, s') \<and>
      psci_plat_pm_ops s' = Some example_ops \<and>
      cap_set (psci_caps s') (PSCI_GENERIC_CAP example_config) \<and>
      cap_set (psci_caps s') (CAP_PSCI_CPU_OFF example_config) \<and>
      cap_set (psci_caps s') (CAP_PSCI_CPU_ON_AARCH64 example_config) \<and>
      \<not> cap_set (psci_caps s') (CAP_PSCI_CPU_SUSPEND_AARCH64 example_config) \<and>
      \<not> cap_set (psci_caps s') (CAP_PSCI_SYSTEM_OFF example_config) \<and>
      cap_set (psci_caps s') (CAP_PSCI_SYSTEM_RESET example_config))"
proof -
  have me: "platform_my_core_pos (example_platform 2) < PLATFORM_CORE_COUNT example_config"
    by (simp add: example_platform_def example_cfg)
  obtain s' where run: "psci_setup example_config (example_platform 2) bss_globals = Inr (0, s')"
    unfolding psci_setup_ok [OF example_platform_valid me] by (simp add: example_platform_def)
  have pm: "platform_setup_pm (example_platform 2) = Some example_ops"
    by (simp add: example_platform_def)
  from psci_caps_iff_hooks [OF run example_caps_distinct]
  have "psci_plat_pm_ops s' = Some example_ops \<and>
      cap_set (psci_caps s') (PSCI_GENERIC_CAP example_config) \<and>
      cap_set (psci_caps s') (CAP_PSCI_CPU_OFF example_config) \<and>
      cap_set (psci_caps s') (CAP_PSCI_CPU_ON_AARCH64 example_config) \<and>
      \<not> cap_set (psci_caps s') (CAP_PSCI_CPU_SUSPEND_AARCH64 example_config) \<and>
      \<not> cap_set (psci_caps s') (CAP_PSCI_SYSTEM_OFF example_config) \<and>
      cap_set (psci_caps s') (CAP_PSCI_SYSTEM_RESET example_config)"
    unfolding pm by (auto simp: example_ops_def)
  with run example_caps_distinct show ?thesis by blast
qed

text \<open>
  Claim C3, at the description \<open>[2, 0, 0]\<close> with \<open>PLATFORM_CORE_COUNT = 2\<close> and
  \<open>PLAT_MAX_PWR_LVL = 2\<close>: the description decodes to \<open>0\<close> cpu leaves, not \<open>2\<close>, every index
  read is within the asserted bound, and yet the builder returns without an abort, leaving
  the slots of both cpus as they were. The variable \<open>j\<close> that the final assertion compares
  with \<open>PLATFORM_CORE_COUNT\<close> still holds the end of the allocation of the two roots, since
  the loop over the cpu level has no entry to visit.
\<close>

theorem childless_roots_pass_assert:
  "leaf_count childless_desc (PLAT_MAX_PWR_LVL childless_config) = 0 \<and>
   PLATFORM_CORE_COUNT childless_config = 2 \<and>
   (case populate_power_domain_tree childless_config childless_desc
           (int (PLAT_MAX_PWR_LVL childless_config)) bss_globals of
      Inl e \<Rightarrow> False
    | Inr s \<Rightarrow>
        cm_ns_context s 0 = None \<and> cm_ns_context s 1 = None \<and>
        mpidr (psci_cpu_pd_nodes s 0) = 0 \<and> mpidr (psci_cpu_pd_nodes s 1) = 0 \<and>
        level (psci_non_cpu_pd_nodes s 0) = 2 \<and> level (psci_non_cpu_pd_nodes s 1) = 2)"
  by code_simp




end
